theory Spec2Isabelle
  imports
    Main
    "HOL-Library.Word"
    "HOL-Library.Char_ord"
    "HOL-Library.List_Lexorder"
    "HOL-Library.Multiset"
begin

unbundle bit_operations_syntax

section \<open>The data model (File, TextureEntry, MipMap)\<close>

text \<open>
  The Go structs become records. Fixed-width unsigned fields are words of that width.
  A Go \<^verbatim>\<open>string\<close> is a byte sequence and is modelled as a \<^typ>\<open>string\<close>
  (one \<^typ>\<open>char\<close> per byte). A \<^verbatim>\<open>float32\<close> is modelled by its IEEE-754 bit
  pattern: the codec only moves it through \<^verbatim>\<open>math.Float32frombits\<close> and
  \<^verbatim>\<open>math.Float32bits\<close>, which reinterpret the 32 bits and do not change them.
  The fixed arrays \<^verbatim>\<open>[4]float32\<close> and \<^verbatim>\<open>[4]byte\<close> are 4-tuples.
\<close>

type_synonym u8 = "8 word"
type_synonym u16 = "16 word"
type_synonym u32 = "32 word"
type_synonym bytes = "u8 list"

definition FileMagic :: string where
  "FileMagic = ''0DHT''"

definition SupportedVersion :: u32 where
  "SupportedVersion = 1"

definition MaxUint32 :: int where
  "MaxUint32 = 4294967295"

definition MaxUint8 :: u32 where
  "MaxUint8 = 255"

record MipMap =
  Width :: u16
  Height :: u16
  AlwaysZero :: u16
  MipPaxFormat :: u8
  AlwaysThree :: u8
  DataOffset :: u32

record TextureEntry =
  PAAFile :: string
  MipMaps :: "MipMap list"
  ColorPaletteCount :: u32
  PalettePtr :: u32
  AverageColorF :: "u32 \<times> u32 \<times> u32 \<times> u32"
  AverageColor :: "u8 \<times> u8 \<times> u8 \<times> u8"
  MaxColor :: "u8 \<times> u8 \<times> u8 \<times> u8"
  ClampFlags :: u32
  TransparentColor :: u32
  HasMaxCtagg :: bool
  IsAlpha :: bool
  IsTransparent :: bool
  IsAlphaNonOpaque :: bool
  MipMapCount :: u32
  PaxFormat :: u32
  LittleEndian :: bool
  IsPAA :: bool
  PaxSuffixType :: u32
  MipMapCountCopy :: u32
  PaxFileSize :: u32

record File =
  Magic :: string
  Textures :: "TextureEntry list"
  Version :: u32

text \<open>
  Errors are values. \<open>Wrap\<close> is \<^verbatim>\<open>fmt.Errorf("<context>: %w", err)\<close> and
  \<open>WrapIdx\<close> the same with an index in the context. \<open>EOF\<close> and
  \<open>ErrUnexpectedEOF\<close> are the two errors of \<^verbatim>\<open>io.ReadFull\<close> on a short stream.
\<close>

datatype error =
    ErrInvalidMagic string
  | ErrUnsupportedVersion u32
  | ErrInvalidASCIIZ
  | ErrTooManyTextures int
  | ErrUnsupportedInputFormat string
  | ErrPACUnsupported string
  | ErrEmptyInputPath
  | ErrNilFile
  | ErrOutOfU32Range int
  | ErrUnsupportedPaxFormat u32
  | ErrIO string
  | EOF
  | ErrUnexpectedEOF
  | Wrap string error
  | WrapIdx string nat error
  | BuildErr string error

section \<open>Little-endian fields\<close>

text \<open>
  \<^verbatim>\<open>binary.LittleEndian.PutUint16/PutUint32\<close> and \<^verbatim>\<open>Uint16/Uint32\<close>, byte by byte
  as the Go library writes them.
\<close>

definition putU16 :: "u16 \<Rightarrow> bytes" where
  "putU16 v = [ucast v, ucast (drop_bit 8 v)]"

definition putU32 :: "u32 \<Rightarrow> bytes" where
  "putU32 v = [ucast v, ucast (drop_bit 8 v), ucast (drop_bit 16 v), ucast (drop_bit 24 v)]"

definition getU16 :: "u8 \<Rightarrow> u8 \<Rightarrow> u16" where
  "getU16 a b = ucast a OR push_bit 8 (ucast b)"

definition getU32 :: "u8 \<Rightarrow> u8 \<Rightarrow> u8 \<Rightarrow> u8 \<Rightarrow> u32" where
  "getU32 a b c d =
     ucast a OR push_bit 8 (ucast b) OR push_bit 16 (ucast c) OR push_bit 24 (ucast d)"

definition byte_of_char :: "char \<Rightarrow> u8" where
  "byte_of_char c = of_char c"

definition char_of_byte :: "u8 \<Rightarrow> char" where
  "char_of_byte b = char_of (unat b)"

definition bytes_of_string :: "string \<Rightarrow> bytes" where
  "bytes_of_string s = map byte_of_char s"

definition string_of_bytes :: "bytes \<Rightarrow> string" where
  "string_of_bytes bs = map char_of_byte bs"

text \<open>
  \<^verbatim>\<open>intToU32Strict\<close>: the checked narrowing of a Go \<^verbatim>\<open>int\<close> to \<^verbatim>\<open>uint32\<close>.
\<close>

definition intToU32Strict :: "int \<Rightarrow> error + u32" where
  "intToU32Strict v =
     (if v < 0 \<or> v > MaxUint32 then Inl (ErrOutOfU32Range v) else Inr (word_of_int v))"

section \<open>Encoder\<close>

text \<open>
  The \<^verbatim>\<open>io.Writer\<close> is an in-memory buffer that accepts every write, so the only
  errors of the encoder are the ones it raises itself. Each \<open>write\<close> function returns the
  bytes it appends to the stream. \<open>Write\<close> returns the bytes that reached the stream
  together with the error, if any: what was written before a failure stays written.
\<close>

definition writeU8 :: "u8 \<Rightarrow> bytes" where
  "writeU8 v = [v]"

definition writeBool8 :: "bool \<Rightarrow> bytes" where
  "writeBool8 v = (if v then writeU8 1 else writeU8 0)"

definition writeU16 :: "u16 \<Rightarrow> bytes" where
  "writeU16 v = putU16 v"

definition writeU32 :: "u32 \<Rightarrow> bytes" where
  "writeU32 v = putU32 v"

definition writeF32 :: "u32 \<Rightarrow> bytes" where
  "writeF32 v = writeU32 v"

definition writeASCIIZ :: "string \<Rightarrow> bytes" where
  "writeASCIIZ s = bytes_of_string s @ writeU8 0"

definition writeU32FromInt :: "int \<Rightarrow> error + bytes" where
  "writeU32FromInt v =
     (case intToU32Strict v of
        Inl e \<Rightarrow> Inl (ErrTooManyTextures v)
      | Inr u \<Rightarrow> Inr (writeU32 u))"

definition writeMipMap :: "MipMap \<Rightarrow> bytes" where
  "writeMipMap m =
     writeU16 (Width m) @ writeU16 (Height m) @ writeU16 (AlwaysZero m) @
     writeU8 (MipPaxFormat m) @ writeU8 (AlwaysThree m) @ writeU32 (DataOffset m)"

definition write4F :: "u32 \<times> u32 \<times> u32 \<times> u32 \<Rightarrow> bytes" where
  "write4F t = (case t of (a, b, c, d) \<Rightarrow> writeF32 a @ writeF32 b @ writeF32 c @ writeF32 d)"

definition write4B :: "u8 \<times> u8 \<times> u8 \<times> u8 \<Rightarrow> bytes" where
  "write4B t = (case t of (a, b, c, d) \<Rightarrow> [a, b, c, d])"

definition entryHead :: "TextureEntry \<Rightarrow> bytes" where
  "entryHead e =
     writeU32 (ColorPaletteCount e) @ writeU32 (PalettePtr e) @
     write4F (AverageColorF e) @ write4B (AverageColor e) @ write4B (MaxColor e) @
     writeU32 (ClampFlags e) @ writeU32 (TransparentColor e) @
     writeBool8 (HasMaxCtagg e) @ writeBool8 (IsAlpha e) @
     writeBool8 (IsTransparent e) @ writeBool8 (IsAlphaNonOpaque e)"

definition writeTextureEntry :: "TextureEntry \<Rightarrow> bytes" where
  "writeTextureEntry e =
     entryHead e @
     writeU32 (MipMapCount e) @ writeU32 (PaxFormat e) @
     writeBool8 (LittleEndian e) @ writeBool8 (IsPAA e) @
     writeASCIIZ (PAAFile e) @ writeU32 (PaxSuffixType e) @
     writeU32 (MipMapCountCopy e) @
     concat (map writeMipMap (MipMaps e)) @
     writeU32 (PaxFileSize e)"

definition Write :: "File option \<Rightarrow> bytes \<times> error option" where
  "Write fo =
     (case fo of
        None \<Rightarrow> ([], Some ErrNilFile)
      | Some f \<Rightarrow>
          (let magic = (if Magic f = [] then FileMagic else Magic f) in
           if length magic \<noteq> 4 then ([], Some (ErrInvalidMagic magic))
           else
             (let out1 = bytes_of_string magic;
                  version = (if Version f = 0 then SupportedVersion else Version f) in
              if version \<noteq> SupportedVersion then (out1, Some (ErrUnsupportedVersion version))
              else
                (let out2 = out1 @ writeU32 version in
                 case writeU32FromInt (int (length (Textures f))) of
                   Inl e \<Rightarrow> (out2, Some (Wrap ''write texture count'' e))
                 | Inr cnt \<Rightarrow>
                     (out2 @ cnt @ concat (map writeTextureEntry (Textures f)), None)))))"

section \<open>Decoder\<close>

text \<open>
  The \<^verbatim>\<open>io.Reader\<close> is a byte buffer; a read consumes a prefix and returns the rest.
  \<open>readFull\<close> is \<^verbatim>\<open>io.ReadFull\<close>: \<open>EOF\<close> when nothing is left,
  \<open>ErrUnexpectedEOF\<close> when fewer bytes than asked are left.
\<close>

type_synonym 'a dec = "bytes \<Rightarrow> error + ('a \<times> bytes)"

definition readFull :: "nat \<Rightarrow> bytes dec" where
  "readFull n bs =
     (if n \<le> length bs then Inr (take n bs, drop n bs)
      else if bs = [] then Inl EOF else Inl ErrUnexpectedEOF)"

definition returnD :: "'a \<Rightarrow> 'a dec" where
  "returnD a bs = Inr (a, bs)"

definition bindD :: "'a dec \<Rightarrow> ('a \<Rightarrow> 'b dec) \<Rightarrow> 'b dec" where
  "bindD m f bs = (case m bs of Inl e \<Rightarrow> Inl e | Inr (a, rest) \<Rightarrow> f a rest)"

definition ctx :: "string \<Rightarrow> 'a dec \<Rightarrow> 'a dec" where
  "ctx s m bs = (case m bs of Inl e \<Rightarrow> Inl (Wrap s e) | Inr r \<Rightarrow> Inr r)"

definition readU8 :: "u8 dec" where
  "readU8 bs =
     (case readFull 1 bs of
        Inl e \<Rightarrow> Inl e
      | Inr (t, rest) \<Rightarrow> (case t of [a] \<Rightarrow> Inr (a, rest) | _ \<Rightarrow> Inl ErrUnexpectedEOF))"

definition readBool8 :: "bool dec" where
  "readBool8 bs = (case readU8 bs of Inl e \<Rightarrow> Inl e | Inr (v, rest) \<Rightarrow> Inr (v \<noteq> 0, rest))"

definition readU16 :: "u16 dec" where
  "readU16 bs =
     (case readFull 2 bs of
        Inl e \<Rightarrow> Inl e
      | Inr (t, rest) \<Rightarrow>
          (case t of [a, b] \<Rightarrow> Inr (getU16 a b, rest) | _ \<Rightarrow> Inl ErrUnexpectedEOF))"

definition readU32 :: "u32 dec" where
  "readU32 bs =
     (case readFull 4 bs of
        Inl e \<Rightarrow> Inl e
      | Inr (t, rest) \<Rightarrow>
          (case t of [a, b, c, d] \<Rightarrow> Inr (getU32 a b c d, rest) | _ \<Rightarrow> Inl ErrUnexpectedEOF))"

definition readF32 :: "u32 dec" where
  "readF32 bs = (case readU32 bs of Inl e \<Rightarrow> Inl e | Inr (u, rest) \<Rightarrow> Inr (u, rest))"

definition read4B :: "(u8 \<times> u8 \<times> u8 \<times> u8) dec" where
  "read4B bs =
     (case readFull 4 bs of
        Inl e \<Rightarrow> Inl e
      | Inr (t, rest) \<Rightarrow>
          (case t of [a, b, c, d] \<Rightarrow> Inr ((a, b, c, d), rest) | _ \<Rightarrow> Inl ErrUnexpectedEOF))"

text \<open>
  \<^verbatim>\<open>readASCIIZ\<close> reads single bytes until a zero byte; the end of the stream before
  the terminator is \<open>ErrInvalidASCIIZ\<close>.
\<close>

fun readASCIIZ_loop :: "bytes \<Rightarrow> string dec" where
  "readASCIIZ_loop buf [] = Inl ErrInvalidASCIIZ"
| "readASCIIZ_loop buf (b # rest) =
     (if b = 0 then Inr (string_of_bytes buf, rest) else readASCIIZ_loop (buf @ [b]) rest)"

definition readASCIIZ :: "string dec" where
  "readASCIIZ bs = readASCIIZ_loop [] bs"

definition readMipMap :: "MipMap dec" where
  "readMipMap =
     bindD (ctx ''read width'' readU16) (\<lambda>width.
     bindD (ctx ''read height'' readU16) (\<lambda>height.
     bindD (ctx ''read always zero'' readU16) (\<lambda>alwaysZero.
     bindD (ctx ''read mip pax format'' readU8) (\<lambda>paxFormat.
     bindD (ctx ''read always three'' readU8) (\<lambda>alwaysThree.
     bindD (ctx ''read data offset'' readU32) (\<lambda>dataOffset.
     returnD \<lparr>Width = width, Height = height, AlwaysZero = alwaysZero,
              MipPaxFormat = paxFormat, AlwaysThree = alwaysThree,
              DataOffset = dataOffset\<rparr>))))))"

text \<open>
  The loop \<^verbatim>\<open>for i := uint32(0); i < mipCountCopy; i++\<close>, appending to the slice.
\<close>

function readMipMaps :: "nat \<Rightarrow> nat \<Rightarrow> MipMap list \<Rightarrow> (MipMap list) dec" where
  "readMipMaps i n acc bs =
     (if i < n then
        (case readMipMap bs of
           Inl e \<Rightarrow> Inl (WrapIdx ''read mipmap'' i e)
         | Inr (m, rest) \<Rightarrow> readMipMaps (Suc i) n (acc @ [m]) rest)
      else Inr (acc, bs))"
  by pat_completeness auto
termination
  by (relation "measure (\<lambda>(i, n, acc, bs). n - i)") auto

definition read4F :: "(u32 \<times> u32 \<times> u32 \<times> u32) dec" where
  "read4F =
     bindD (\<lambda>bs. case readF32 bs of Inl e \<Rightarrow> Inl (WrapIdx ''read average float color'' 0 e)
                                   | Inr r \<Rightarrow> Inr r) (\<lambda>a.
     bindD (\<lambda>bs. case readF32 bs of Inl e \<Rightarrow> Inl (WrapIdx ''read average float color'' 1 e)
                                   | Inr r \<Rightarrow> Inr r) (\<lambda>b.
     bindD (\<lambda>bs. case readF32 bs of Inl e \<Rightarrow> Inl (WrapIdx ''read average float color'' 2 e)
                                   | Inr r \<Rightarrow> Inr r) (\<lambda>c.
     bindD (\<lambda>bs. case readF32 bs of Inl e \<Rightarrow> Inl (WrapIdx ''read average float color'' 3 e)
                                   | Inr r \<Rightarrow> Inr r) (\<lambda>d.
     returnD (a, b, c, d)))))"

definition readTextureEntry :: "TextureEntry dec" where
  "readTextureEntry =
     bindD (ctx ''read color palette count'' readU32) (\<lambda>count.
     bindD (ctx ''read palette ptr'' readU32) (\<lambda>palettePtr.
     bindD read4F (\<lambda>avgF.
     bindD (ctx ''read average color bytes'' read4B) (\<lambda>avg.
     bindD (ctx ''read max color bytes'' read4B) (\<lambda>maxc.
     bindD (ctx ''read clamp flags'' readU32) (\<lambda>clampFlags.
     bindD (ctx ''read transparent color'' readU32) (\<lambda>transparentColor.
     bindD (ctx ''read has_max_ctagg'' readBool8) (\<lambda>hasMax.
     bindD (ctx ''read is_alpha'' readBool8) (\<lambda>isAlpha.
     bindD (ctx ''read is_transparent'' readBool8) (\<lambda>isTransparent.
     bindD (ctx ''read is_alpha_non_opaque'' readBool8) (\<lambda>isAlphaNonOpaque.
     bindD (ctx ''read mip count'' readU32) (\<lambda>mipCount.
     bindD (ctx ''read pax format'' readU32) (\<lambda>paxFormat.
     bindD (ctx ''read little_endian'' readBool8) (\<lambda>littleEndian.
     bindD (ctx ''read is_paa'' readBool8) (\<lambda>isPAA.
     bindD (ctx ''read paa path'' readASCIIZ) (\<lambda>paaFile.
     bindD (ctx ''read pax suffix type'' readU32) (\<lambda>paxSuffixType.
     bindD (ctx ''read mip count copy'' readU32) (\<lambda>mipCountCopy.
     bindD (readMipMaps 0 (unat mipCountCopy) []) (\<lambda>mips.
     bindD (ctx ''read pax file size'' readU32) (\<lambda>paxFileSize.
     returnD \<lparr>PAAFile = paaFile, MipMaps = mips, ColorPaletteCount = count,
              PalettePtr = palettePtr, AverageColorF = avgF, AverageColor = avg,
              MaxColor = maxc, ClampFlags = clampFlags,
              TransparentColor = transparentColor, HasMaxCtagg = hasMax,
              IsAlpha = isAlpha, IsTransparent = isTransparent,
              IsAlphaNonOpaque = isAlphaNonOpaque, MipMapCount = mipCount,
              PaxFormat = paxFormat, LittleEndian = littleEndian, IsPAA = isPAA,
              PaxSuffixType = paxSuffixType, MipMapCountCopy = mipCountCopy,
              PaxFileSize = paxFileSize\<rparr>))))))))))))))))))))"

function readEntries :: "nat \<Rightarrow> nat \<Rightarrow> TextureEntry list \<Rightarrow> (TextureEntry list) dec" where
  "readEntries i n acc bs =
     (if i < n then
        (case readTextureEntry bs of
           Inl e \<Rightarrow> Inl (WrapIdx ''read texture entry'' i e)
         | Inr (entry, rest) \<Rightarrow> readEntries (Suc i) n (acc @ [entry]) rest)
      else Inr (acc, bs))"
  by pat_completeness auto
termination
  by (relation "measure (\<lambda>(i, n, acc, bs). n - i)") auto

text \<open>
  \<open>ReadS\<close> is \<^verbatim>\<open>Read\<close> together with the bytes the reader has not consumed;
  \<open>Read\<close> returns the file alone, as the Go function does.
\<close>

definition ReadS :: "File dec" where
  "ReadS =
     bindD (ctx ''read magic'' (readFull 4)) (\<lambda>tmp.
       (let magic = string_of_bytes tmp in
        if magic \<noteq> FileMagic then (\<lambda>bs. Inl (ErrInvalidMagic magic))
        else
          bindD (ctx ''read version'' readU32) (\<lambda>version.
            if version \<noteq> SupportedVersion then (\<lambda>bs. Inl (ErrUnsupportedVersion version))
            else
              bindD (ctx ''read texture count'' readU32) (\<lambda>textureCount.
              bindD (readEntries 0 (unat textureCount) []) (\<lambda>textures.
              returnD \<lparr>Magic = magic, Textures = textures, Version = version\<rparr>)))))"

definition Read :: "bytes \<Rightarrow> error + File" where
  "Read bs = (case ReadS bs of Inl e \<Rightarrow> Inl e | Inr (f, rest) \<Rightarrow> Inr f)"


section \<open>Comparing a buffer with its re-encoding\<close>

text \<open>
  The single-byte booleans are the only bytes the decoder does not keep as they are:
  \<^verbatim>\<open>readBool8\<close> decodes \<^verbatim>\<open>v != 0\<close> and \<^verbatim>\<open>writeBool8\<close> writes \<open>0\<close> or \<open>1\<close>.
  \<open>norm8 b\<close> is the byte written back for a boolean byte \<open>b\<close>.

  \<open>entry_bool_mask e\<close> marks the positions of the six booleans in the encoding of the
  entry \<open>e\<close>, following the order of the fields in \<^verbatim>\<open>writeTextureEntry\<close>: 40 bytes
  (palette count, palette pointer, four floats, two times four colour bytes, clamp flags,
  transparent colour), then the four booleans \<^verbatim>\<open>has_max_ctagg\<close>, \<^verbatim>\<open>is_alpha\<close>,
  \<^verbatim>\<open>is_transparent\<close>, \<^verbatim>\<open>is_alpha_non_opaque\<close>, then 8 bytes (mip count, pax format),
  then the two booleans \<^verbatim>\<open>little_endian\<close> and \<^verbatim>\<open>is_paa\<close>, then the path with its
  terminator, suffix type, mip count copy, 12 bytes for each mip descriptor and the file
  size. \<open>file_bool_mask f\<close> is the same for a whole file, after the 12 bytes of magic,
  version and texture count.

  \<open>normalise_bools ms p\<close> is \<open>p\<close> with \<open>norm8\<close> applied to the marked bytes and every
  other byte unchanged.
\<close>

definition norm8 :: "u8 \<Rightarrow> u8" where
  "norm8 b = (if b = 0 then 0 else 1)"

definition normalise_bools :: "bool list \<Rightarrow> bytes \<Rightarrow> bytes" where
  "normalise_bools ms p = map (\<lambda>(k, b). if k then norm8 b else b) (zip ms p)"

definition entry_bool_mask :: "TextureEntry \<Rightarrow> bool list" where
  "entry_bool_mask e =
     replicate 40 False @ replicate 4 True @ replicate 8 False @ replicate 2 True @
     replicate (length (PAAFile e) + 1 + 4 + 4 + 12 * length (MipMaps e) + 4) False"

definition file_bool_mask :: "File \<Rightarrow> bool list" where
  "file_bool_mask f = replicate 12 False @ concat (map entry_bool_mask (Textures f))"

text \<open>
  The same marks field by field: \<open>plain bs\<close> marks no byte of the field encoded as \<open>bs\<close>,
  \<open>bool_field\<close> marks the byte of a boolean. \<open>reencodes ms bs out rest\<close>: the bytes
  \<open>bs\<close> split into a consumed prefix, as long as \<open>ms\<close>, and the unread \<open>rest\<close>, and
  \<open>out\<close> is that prefix with its marked bytes normalised.
\<close>

definition plain :: "bytes \<Rightarrow> bool list" where
  "plain bs = replicate (length bs) False"

definition bool_field :: "bool list" where
  "bool_field = [True]"

definition reencodes :: "bool list \<Rightarrow> bytes \<Rightarrow> bytes \<Rightarrow> bytes \<Rightarrow> bool" where
  "reencodes ms bs out rest =
     (\<exists>p. bs = p @ rest \<and> length p = length ms \<and> out = normalise_bools ms p)"

text \<open>
  A buffer with one entry whose \<^verbatim>\<open>has_max_ctagg\<close> byte is \<open>2\<close>, and its re-encoding.
\<close>

definition buffer_bool2 :: bytes where
  "buffer_bool2 =
     [48, 68, 72, 84,  1, 0, 0, 0,  1, 0, 0, 0,
      1, 0, 0, 0,  0, 0, 0, 0,
      0, 0, 0, 0,  0, 0, 0, 0,  0, 0, 0, 0,  0, 0, 0, 0,
      0, 0, 0, 0,  255, 255, 255, 255,
      0, 0, 0, 0,  255, 255, 255, 255,
      2, 0, 0, 0,
      0, 0, 0, 0,  5, 0, 0, 0,
      1, 1,
      97, 0,
      0, 0, 0, 0,
      0, 0, 0, 0,
      7, 0, 0, 0]"

definition file_bool2 :: File where
  "file_bool2 =
     \<lparr>Magic = ''0DHT'',
      Textures =
        [\<lparr>PAAFile = ''a'', MipMaps = [], ColorPaletteCount = 1,
          PalettePtr = 0, AverageColorF = (0, 0, 0, 0),
          AverageColor = (0, 0, 0, 0), MaxColor = (255, 255, 255, 255),
          ClampFlags = 0, TransparentColor = 4294967295,
          HasMaxCtagg = True, IsAlpha = False, IsTransparent = False,
          IsAlphaNonOpaque = False, MipMapCount = 0, PaxFormat = 5,
          LittleEndian = True, IsPAA = True, PaxSuffixType = 0,
          MipMapCountCopy = 0, PaxFileSize = 7\<rparr>],
      Version = 1\<rparr>"

definition buffer_bool1 :: bytes where
  "buffer_bool1 = buffer_bool2 [52 := 1]"

section \<open>Validator\<close>

text \<open>
  Each \<^verbatim>\<open>fmt.Errorf("%w: ...", ErrValidation, ...)\<close> of the validator is one constructor
  carrying the index context and the values of its message; \<open>Join\<close> is
  \<^verbatim>\<open>errors.Join\<close>. A nil pointer argument is \<open>None\<close>.
\<close>

datatype verror =
    FileIsNil
  | MagicMismatch string
  | VersionMismatch u32
  | TextureCountRange nat
  | EntryIsNil int
  | PathEmpty int
  | FormatRange int u32
  | MipLenRange int nat
  | MipCountLen int u32 u32
  | MipCountCopyLen int u32 u32
  | MipCountsDiffer int u32 u32
  | ZeroDimension int nat u16 u16
  | AlwaysZeroBad int nat u16
  | AlwaysThreeBad int nat u8
  | MipFormatBad int nat u8 u32
  | OffsetDecreasing int nat u32 u32
  | Join "verror list"

text \<open>
  The loop over \<^verbatim>\<open>entry.MipMaps\<close>: \<open>i\<close> is the loop index, \<open>prevOffset\<close> the
  variable of that name, and the result the issues the loop appends, in order.
\<close>

fun mipIssues :: "int \<Rightarrow> u32 \<Rightarrow> nat \<Rightarrow> u32 \<Rightarrow> MipMap list \<Rightarrow> verror list" where
  "mipIssues idx fmt i prevOffset [] = []"
| "mipIssues idx fmt i prevOffset (m # ms) =
     (if Width m = 0 \<or> Height m = 0 then [ZeroDimension idx i (Width m) (Height m)] else []) @
     (if AlwaysZero m \<noteq> 0 then [AlwaysZeroBad idx i (AlwaysZero m)] else []) @
     (if AlwaysThree m \<noteq> 3 then [AlwaysThreeBad idx i (AlwaysThree m)] else []) @
     (if fmt \<le> MaxUint8 \<and> ucast (MipPaxFormat m) \<noteq> fmt
      then [MipFormatBad idx i (MipPaxFormat m) fmt] else []) @
     (if i > 0 \<and> DataOffset m < prevOffset
      then [OffsetDecreasing idx i (DataOffset m) prevOffset] else []) @
     mipIssues idx fmt (Suc i) (DataOffset m) ms"

definition entryIssues :: "TextureEntry \<Rightarrow> int \<Rightarrow> verror list" where
  "entryIssues entry entryIndex =
     (let n = length (MipMaps entry);
          conv = intToU32Strict (int n);
          mipLen = (case conv of Inl e \<Rightarrow> 0 | Inr u \<Rightarrow> u) in
      (if PAAFile entry = [] then [PathEmpty entryIndex] else []) @
      (if PaxFormat entry > MaxUint8 then [FormatRange entryIndex (PaxFormat entry)] else []) @
      (case conv of Inl e \<Rightarrow> [MipLenRange entryIndex n] | Inr u \<Rightarrow> []) @
      (if MipMapCount entry \<noteq> mipLen
       then [MipCountLen entryIndex (MipMapCount entry) mipLen] else []) @
      (if MipMapCountCopy entry \<noteq> mipLen
       then [MipCountCopyLen entryIndex (MipMapCountCopy entry) mipLen] else []) @
      (if MipMapCount entry \<noteq> MipMapCountCopy entry
       then [MipCountsDiffer entryIndex (MipMapCount entry) (MipMapCountCopy entry)] else []) @
      mipIssues entryIndex (PaxFormat entry) 0 0 (MipMaps entry))"

definition ValidateEntry :: "TextureEntry option \<Rightarrow> int \<Rightarrow> verror option" where
  "ValidateEntry eo entryIndex =
     (case eo of
        None \<Rightarrow> Some (EntryIsNil entryIndex)
      | Some entry \<Rightarrow>
          (let issues = entryIssues entry entryIndex in
           if length issues = 0 then None else Some (Join issues)))"

text \<open>The loop \<^verbatim>\<open>for i := range f.Textures\<close> of \<^verbatim>\<open>ValidateFile\<close>.\<close>

fun entriesIssues :: "nat \<Rightarrow> TextureEntry list \<Rightarrow> verror list" where
  "entriesIssues i [] = []"
| "entriesIssues i (e # es) =
     (case ValidateEntry (Some e) (int i) of None \<Rightarrow> [] | Some err \<Rightarrow> [err]) @
     entriesIssues (Suc i) es"

definition fileIssues :: "File \<Rightarrow> verror list" where
  "fileIssues f =
     (if Magic f \<noteq> [] \<and> Magic f \<noteq> FileMagic then [MagicMismatch (Magic f)] else []) @
     (if Version f \<noteq> 0 \<and> Version f \<noteq> SupportedVersion
      then [VersionMismatch (Version f)] else []) @
     (if int (length (Textures f)) > MaxUint32
      then [TextureCountRange (length (Textures f))] else []) @
     entriesIssues 0 (Textures f)"

definition ValidateFile :: "File option \<Rightarrow> verror option" where
  "ValidateFile fo =
     (case fo of
        None \<Rightarrow> Some FileIsNil
      | Some f \<Rightarrow>
          (let issues = fileIssues f in
           if length issues = 0 then None else Some (Join issues)))"

subsection \<open>The invariants, stated on the model\<close>

text \<open>
  The violations of a file as a set, indexed by position and independent of the order
  and of the loop variables of the validator: the reference the validator is compared
  with. \<open>leaves\<close> lists the single violations inside an aggregate.
\<close>

fun leaves :: "verror \<Rightarrow> verror list" where
  "leaves (Join es) = concat (map leaves es)"
| "leaves e = [e]"

definition mip_violations :: "int \<Rightarrow> u32 \<Rightarrow> MipMap list \<Rightarrow> nat \<Rightarrow> verror set" where
  "mip_violations idx fmt ms j =
     (let m = ms ! j in
      (if Width m = 0 \<or> Height m = 0 then {ZeroDimension idx j (Width m) (Height m)} else {}) \<union>
      (if AlwaysZero m \<noteq> 0 then {AlwaysZeroBad idx j (AlwaysZero m)} else {}) \<union>
      (if AlwaysThree m \<noteq> 3 then {AlwaysThreeBad idx j (AlwaysThree m)} else {}) \<union>
      (if fmt \<le> 255 \<and> ucast (MipPaxFormat m) \<noteq> fmt
       then {MipFormatBad idx j (MipPaxFormat m) fmt} else {}) \<union>
      (if 0 < j \<and> DataOffset m < DataOffset (ms ! (j - 1))
       then {OffsetDecreasing idx j (DataOffset m) (DataOffset (ms ! (j - 1)))} else {}))"

definition entry_violations :: "int \<Rightarrow> TextureEntry \<Rightarrow> verror set" where
  "entry_violations idx e =
     (let n = length (MipMaps e);
          len32 = (if n < 2 ^ 32 then word_of_nat n else 0 :: u32) in
      (if PAAFile e = [] then {PathEmpty idx} else {}) \<union>
      (if PaxFormat e > 255 then {FormatRange idx (PaxFormat e)} else {}) \<union>
      (if n < 2 ^ 32 then {} else {MipLenRange idx n}) \<union>
      (if MipMapCount e \<noteq> len32 then {MipCountLen idx (MipMapCount e) len32} else {}) \<union>
      (if MipMapCountCopy e \<noteq> len32
       then {MipCountCopyLen idx (MipMapCountCopy e) len32} else {}) \<union>
      (if MipMapCount e \<noteq> MipMapCountCopy e
       then {MipCountsDiffer idx (MipMapCount e) (MipMapCountCopy e)} else {}) \<union>
      (\<Union>j \<in> {..<n}. mip_violations idx (PaxFormat e) (MipMaps e) j))"

definition file_violations :: "File \<Rightarrow> verror set" where
  "file_violations f =
     (if Magic f \<noteq> [] \<and> Magic f \<noteq> ''0DHT'' then {MagicMismatch (Magic f)} else {}) \<union>
     (if Version f \<noteq> 0 \<and> Version f \<noteq> 1 then {VersionMismatch (Version f)} else {}) \<union>
     (if length (Textures f) < 2 ^ 32 then {} else {TextureCountRange (length (Textures f))}) \<union>
     (\<Union>i \<in> {..<length (Textures f)}. entry_violations (int i) (Textures f ! i))"

text \<open>An entry without mip descriptors, used to run the codec on a concrete input.\<close>

definition sample_entry :: TextureEntry where
  "sample_entry =
     \<lparr>PAAFile = ''a'', MipMaps = [], ColorPaletteCount = 1,
      PalettePtr = 0, AverageColorF = (0, 0, 0, 0),
      AverageColor = (0, 0, 0, 0), MaxColor = (255, 255, 255, 255),
      ClampFlags = 0, TransparentColor = 4294967295,
      HasMaxCtagg = True, IsAlpha = False, IsTransparent = False,
      IsAlphaNonOpaque = False, MipMapCount = 0, PaxFormat = 5,
      LittleEndian = True, IsPAA = True, PaxSuffixType = 0,
      MipMapCountCopy = 0, PaxFileSize = 7\<rparr>"

text \<open>A file that violates the magic, the version and one mip count.\<close>

definition bad_file :: File where
  "bad_file =
     \<lparr>Magic = ''XXXX'', Textures = [sample_entry\<lparr>MipMapCount := 5\<rparr>], Version = 99\<rparr>"

section \<open>Suffix classifier\<close>

definition SuffixDiffuseSRGB :: u32 where "SuffixDiffuseSRGB = 0"
definition SuffixDiffuseLinear :: u32 where "SuffixDiffuseLinear = 1"
definition SuffixDetailLinear :: u32 where "SuffixDetailLinear = 2"
definition SuffixNormalMap :: u32 where "SuffixNormalMap = 3"
definition SuffixIrradianceMap :: u32 where "SuffixIrradianceMap = 4"
definition SuffixRandom05To1 :: u32 where "SuffixRandom05To1 = 5"
definition SuffixTreeCrownCalc :: u32 where "SuffixTreeCrownCalc = 6"
definition SuffixMacroObjectSRGB :: u32 where "SuffixMacroObjectSRGB = 7"
definition SuffixAmbientShadow :: u32 where "SuffixAmbientShadow = 8"
definition SuffixSpecularAmount :: u32 where "SuffixSpecularAmount = 9"
definition SuffixDitherTexture :: u32 where "SuffixDitherTexture = 10"
definition SuffixDetailSpecularAmount :: u32 where "SuffixDetailSpecularAmount = 11"
definition SuffixMultiShaderMask :: u32 where "SuffixMultiShaderMask = 12"
definition SuffixThermalImageTextureCA :: u32 where "SuffixThermalImageTextureCA = 13"

record suffixGuessRule =
  token :: string
  val :: u32

definition suffixGuessRules :: "suffixGuessRule list" where
  "suffixGuessRules =
    [\<lparr>token = ''_nohq_alpha'', val = SuffixDiffuseSRGB\<rparr>,
     \<lparr>token = ''_dtsmdi'', val = SuffixDetailSpecularAmount\<rparr>,
     \<lparr>token = ''_ti_ca'', val = SuffixThermalImageTextureCA\<rparr>,
     \<lparr>token = ''_smdi'', val = SuffixSpecularAmount\<rparr>,
     \<lparr>token = ''_detail'', val = SuffixDetailLinear\<rparr>,
     \<lparr>token = ''_normalmap'', val = SuffixNormalMap\<rparr>,
     \<lparr>token = ''_nohq'', val = SuffixNormalMap\<rparr>,
     \<lparr>token = ''_novhq'', val = SuffixNormalMap\<rparr>,
     \<lparr>token = ''_nofhq'', val = SuffixNormalMap\<rparr>,
     \<lparr>token = ''_nofex'', val = SuffixNormalMap\<rparr>,
     \<lparr>token = ''_noex'', val = SuffixNormalMap\<rparr>,
     \<lparr>token = ''_nsex'', val = SuffixNormalMap\<rparr>,
     \<lparr>token = ''_nshq'', val = SuffixNormalMap\<rparr>,
     \<lparr>token = ''_nopx'', val = SuffixNormalMap\<rparr>,
     \<lparr>token = ''_non'', val = SuffixNormalMap\<rparr>,
     \<lparr>token = ''_nof'', val = SuffixNormalMap\<rparr>,
     \<lparr>token = ''_nse'', val = SuffixNormalMap\<rparr>,
     \<lparr>token = ''_ns'', val = SuffixNormalMap\<rparr>,
     \<lparr>token = ''_no'', val = SuffixNormalMap\<rparr>,
     \<lparr>token = ''_mask'', val = SuffixMultiShaderMask\<rparr>,
     \<lparr>token = ''_sky'', val = SuffixDiffuseLinear\<rparr>,
     \<lparr>token = ''_lco'', val = SuffixDiffuseLinear\<rparr>,
     \<lparr>token = ''_dxt5'', val = SuffixDiffuseLinear\<rparr>,
     \<lparr>token = ''_mco'', val = SuffixDetailLinear\<rparr>,
     \<lparr>token = ''_cdt'', val = SuffixDetailLinear\<rparr>,
     \<lparr>token = ''_dt'', val = SuffixDetailLinear\<rparr>,
     \<lparr>token = ''_mc'', val = SuffixMacroObjectSRGB\<rparr>,
     \<lparr>token = ''_as'', val = SuffixAmbientShadow\<rparr>,
     \<lparr>token = ''_sm'', val = SuffixSpecularAmount\<rparr>,
     \<lparr>token = ''_ca'', val = SuffixDiffuseSRGB\<rparr>,
     \<lparr>token = ''_co'', val = SuffixDiffuseSRGB\<rparr>]"

text \<open>
  \<^verbatim>\<open>strings.ToLower\<close> is a function of the Go library that works on Unicode code
  points. It is a parameter of the model: the classifier takes it as its argument
  \<open>lower\<close>, and nothing is assumed about it.
\<close>

text \<open>\<^verbatim>\<open>strings.LastIndexByte\<close>: the index of the last occurrence, or \<open>-1\<close>.\<close>

fun LastIndexByte :: "string \<Rightarrow> char \<Rightarrow> int" where
  "LastIndexByte [] c = -1"
| "LastIndexByte (x # xs) c =
     (let r = LastIndexByte xs c in
      if r \<ge> 0 then r + 1 else if x = c then 0 else -1)"

text \<open>\<^verbatim>\<open>strings.Index\<close>: the index of the first occurrence; \<open>None\<close> is \<open>-1\<close>.\<close>

fun Index :: "string \<Rightarrow> string \<Rightarrow> nat option" where
  "Index [] tok = (if tok = [] then Some 0 else None)"
| "Index (c # s) tok =
     (if take (length tok) (c # s) = tok then Some 0
      else map_option Suc (Index s tok))"

function containsTokenBoundaryFrom :: "string \<Rightarrow> string \<Rightarrow> nat \<Rightarrow> bool" where
  "containsTokenBoundaryFrom s tok from =
     (case Index (drop from s) tok of
        None \<Rightarrow> False
      | Some idx \<Rightarrow>
          (let pos = from + idx; nxt = pos + length tok in
           if nxt \<ge> length s then True
           else
             (let ch = s ! nxt in
              if ch = CHR ''_'' \<or> ch = CHR ''-'' \<or> ch = CHR ''.'' then True
              else containsTokenBoundaryFrom s tok (pos + 1))))"
  by pat_completeness auto
termination
  by (relation "measure (\<lambda>(s, tok, from). length s - from)") auto

definition containsTokenBoundary :: "string \<Rightarrow> string \<Rightarrow> bool" where
  "containsTokenBoundary s tok = containsTokenBoundaryFrom s tok 0"

fun guessLoop :: "suffixGuessRule list \<Rightarrow> string \<Rightarrow> u32 \<times> bool" where
  "guessLoop [] s = (SuffixDiffuseSRGB, False)"
| "guessLoop (rule # rules) s =
     (if containsTokenBoundary s (token rule) then (val rule, True) else guessLoop rules s)"

definition scanInput :: "(string \<Rightarrow> string) \<Rightarrow> string \<Rightarrow> string" where
  "scanInput lower path =
     (let s = lower path; dot = LastIndexByte s CHR ''.'' in
      if dot > 0 then take (nat dot) s else s)"

definition GuessSuffixTypeFromPath :: "(string \<Rightarrow> string) \<Rightarrow> string \<Rightarrow> u32 \<times> bool" where
  "GuessSuffixTypeFromPath lower path = guessLoop suffixGuessRules (scanInput lower path)"

text \<open>
  For concrete inputs: \<open>lowerASCII\<close> is what \<^verbatim>\<open>strings.ToLower\<close> returns on a string
  of ASCII bytes (\<open>A\<close> to \<open>Z\<close> become \<open>a\<close> to \<open>z\<close>, every other byte stays).
\<close>

definition lowerByte :: "char \<Rightarrow> char" where
  "lowerByte c =
     (if (65 :: nat) \<le> of_char c \<and> (of_char c :: nat) \<le> 90
      then char_of ((of_char c :: nat) + 32) else c)"

definition lowerASCII :: "string \<Rightarrow> string" where
  "lowerASCII s = map lowerByte s"

subsection \<open>Matching at a token boundary, stated on the string\<close>

text \<open>
  \<open>occurs_at s tok pos\<close>: the token is the substring of \<open>s\<close> that starts at \<open>pos\<close>.
  \<open>at_boundary s tok pos\<close>: that occurrence is followed by the end of \<open>s\<close> or by one of
  the separators. \<open>boundary_match\<close>: some occurrence is at a boundary.
\<close>

definition occurs_at :: "string \<Rightarrow> string \<Rightarrow> nat \<Rightarrow> bool" where
  "occurs_at s tok pos = (pos + length tok \<le> length s \<and> take (length tok) (drop pos s) = tok)"

definition at_boundary :: "string \<Rightarrow> string \<Rightarrow> nat \<Rightarrow> bool" where
  "at_boundary s tok pos =
        (pos + length tok = length s \<or>
         s ! (pos + length tok) \<in> {CHR ''_'', CHR ''-'', CHR ''.''})"

definition boundary_match :: "string \<Rightarrow> string \<Rightarrow> bool" where
  "boundary_match s tok =
     (\<exists>pos \<in> {..length s}. occurs_at s tok pos \<and> at_boundary s tok pos)"

section \<open>Worker-count resolution\<close>

text \<open>
  A Go \<^verbatim>\<open>int\<close> is a 64-bit two's complement integer, modelled as an \<^typ>\<open>int\<close> with
  the wrap-around of the shift written out: \<open>shl1 p\<close> is \<^verbatim>\<open>p << 1\<close>.
\<close>

definition wrap64 :: "int \<Rightarrow> int" where
  "wrap64 x = (x + 2 ^ 63) mod 2 ^ 64 - 2 ^ 63"

definition shl1 :: "int \<Rightarrow> int" where
  "shl1 p = wrap64 (2 * p)"

definition WorkersAuto :: int where
  "WorkersAuto = -1"

text \<open>
  The loop \<^verbatim>\<open>for p<<1 <= v { p <<= 1 }\<close> of \<^verbatim>\<open>floorPow2\<close>; \<open>None\<close> stands for a loop
  that does not end.
\<close>

partial_function (option) floorPow2_loop :: "int \<Rightarrow> int \<Rightarrow> int option" where
  "floorPow2_loop p v = (if shl1 p \<le> v then floorPow2_loop (shl1 p) v else Some p)"

definition floorPow2 :: "int \<Rightarrow> int option" where
  "floorPow2 v = (if v \<le> 1 then Some 1 else floorPow2_loop 1 v)"

text \<open>
  \<open>procs\<close> is the value of \<^verbatim>\<open>runtime.GOMAXPROCS(0)\<close>, which is at least 1, so that Go's
  truncating division by 4 is \<open>div\<close>.
\<close>

definition autoBuildWorkers :: "int \<Rightarrow> int \<Rightarrow> int option" where
  "autoBuildWorkers procs fileCount =
     (let workers = procs div 4;
          workers = max workers 2;
          workers = min workers fileCount
      in floorPow2 workers)"

definition resolveBuildWorkers :: "int \<Rightarrow> int \<Rightarrow> int \<Rightarrow> int option" where
  "resolveBuildWorkers procs requested fileCount =
     (if fileCount \<le> 1 then Some 1
      else if requested = WorkersAuto then autoBuildWorkers procs fileCount
      else if requested \<le> 1 then Some 1
      else Some (min requested fileCount))"

section \<open>Builder\<close>

text \<open>
  What the builder takes from outside the package is a parameter of the model, gathered
  in the record \<open>Env\<close>: the functions \<^verbatim>\<open>ToLower\<close>, \<^verbatim>\<open>TrimSpace\<close> and
  \<^verbatim>\<open>EqualFold\<close> of the package \<^verbatim>\<open>strings\<close> (they work on Unicode code points), the
  path functions of \<^verbatim>\<open>path/filepath\<close> and \<^verbatim>\<open>os.Getwd\<close> (they depend on the operating
  system), the host parallelism, the constants of the \<^verbatim>\<open>paa\<close> package, the conversion
  \<^verbatim>\<open>float32(b) / 255.0\<close> as a bit pattern, and \<open>openAsset\<close>, which stands for
  \<^verbatim>\<open>os.Open\<close>, \<^verbatim>\<open>Stat\<close> and \<^verbatim>\<open>paa.DecodeMetadataHeaders\<close>: the size and the metadata
  of the file at a path, or the (wrapped) error of the first of the three that fails.
\<close>

record MipHeader =
  mhWidth :: u16
  mhHeight :: u16
  mhOffset :: u32

record MetadataHeaders =
  Type :: u32
  HasAverageColor :: bool
  metaAverageColor :: "u8 \<times> u8 \<times> u8 \<times> u8"
  HasMaxColor :: bool
  metaMaxColor :: "u8 \<times> u8 \<times> u8 \<times> u8"
  HasGALF :: bool
  GALF :: u32
  MipHeaders :: "MipHeader list"

record Env =
  ToLower :: "string \<Rightarrow> string"
  TrimSpace :: "string \<Rightarrow> string"
  EqualFold :: "string \<Rightarrow> string \<Rightarrow> bool"
  Clean :: "string \<Rightarrow> string"
  Rel :: "string \<Rightarrow> string \<Rightarrow> string option"
  IsAbs :: "string \<Rightarrow> bool"
  Getwd :: "string option"
  Ext :: "string \<Rightarrow> string"
  GOMAXPROCS :: int
  openAsset :: "string \<Rightarrow> error + (int \<times> MetadataHeaders)"
  f32div255 :: "u8 \<Rightarrow> u32"
  PaxGRAYA :: u32
  PaxARGBA5 :: u32
  PaxARGB4 :: u32
  PaxARGB8 :: u32
  PaxDXT1 :: u32
  PaxDXT2 :: u32
  PaxDXT3 :: u32
  PaxDXT4 :: u32
  PaxDXT5 :: u32

record BuildOptions =
  SuffixOverrides :: "string \<rightharpoonup> u32"
  BaseDir :: string
  SkipInvalid :: bool
  LowercasePaths :: bool
  BackslashPaths :: bool
  Workers :: int

record BuildIssue =
  Path :: string
  Error :: error

record Builder =
  inputs :: "string list"
  issues :: "BuildIssue list"
  opts :: BuildOptions
  inputsSorted :: bool

text \<open>
  \<^verbatim>\<open>strings.ReplaceAll(rel, "/", "\\")\<close> and \<^verbatim>\<open>strings.TrimPrefix(rel, ".\\")\<close> work on
  the bytes of the string.
\<close>

definition slashToBackslash :: "string \<Rightarrow> string" where
  "slashToBackslash s = map (\<lambda>c. if c = CHR ''/'' then CHR 0x5C else c) s"

definition TrimPrefix :: "string \<Rightarrow> string \<Rightarrow> string" where
  "TrimPrefix s prefix = (if take (length prefix) s = prefix then drop (length prefix) s else s)"

definition NewBuilder :: "BuildOptions \<Rightarrow> Builder" where
  "NewBuilder o0 =
     (let o1 = (if \<not> LowercasePaths o0 then o0\<lparr>LowercasePaths := True\<rparr> else o0);
          o2 = (if \<not> BackslashPaths o1 then o1\<lparr>BackslashPaths := True\<rparr> else o1)
      in \<lparr>inputs = [], issues = [], opts = o2, inputsSorted = True\<rparr>)"

text \<open>\<open>Append\<close> returns the builder after the call and the error, if any.\<close>

definition Append :: "Env \<Rightarrow> Builder \<Rightarrow> string \<Rightarrow> Builder \<times> error option" where
  "Append env b path =
     (if TrimSpace env path = [] then (b, Some ErrEmptyInputPath)
      else
        (let b1 = (if inputsSorted b \<and> length (inputs b) > 0 \<and> last (inputs b) > path
                   then b\<lparr>inputsSorted := False\<rparr> else b)
         in (b1\<lparr>inputs := inputs b1 @ [path]\<rparr>, None)))"

fun AppendMany :: "Env \<Rightarrow> Builder \<Rightarrow> string list \<Rightarrow> Builder \<times> error option" where
  "AppendMany env b [] = (b, None)"
| "AppendMany env b (path # paths) =
     (case Append env b path of
        (b1, Some err) \<Rightarrow> (b1, Some err)
      | (b1, None) \<Rightarrow> AppendMany env b1 paths)"

definition int64ToU32Strict :: "int \<Rightarrow> error + u32" where
  "int64ToU32Strict v =
     (if v < 0 \<or> v > MaxUint32 then Inl (ErrOutOfU32Range v) else Inr (word_of_int v))"

definition paxTypeToU8 :: "Env \<Rightarrow> u32 \<Rightarrow> error + u8" where
  "paxTypeToU8 env t =
     (if t = PaxGRAYA env then Inr 1
      else if t = PaxARGBA5 env then Inr 3
      else if t = PaxARGB4 env then Inr 4
      else if t = PaxARGB8 env then Inr 5
      else if t = PaxDXT1 env then Inr 6
      else if t = PaxDXT2 env then Inr 7
      else if t = PaxDXT3 env then Inr 8
      else if t = PaxDXT4 env then Inr 9
      else if t = PaxDXT5 env then Inr 10
      else Inl (ErrUnsupportedPaxFormat t))"

definition normalizePath :: "Env \<Rightarrow> BuildOptions \<Rightarrow> string \<Rightarrow> string" where
  "normalizePath env ops inp =
     (let cleanIn = Clean env inp;
          baseDir = TrimSpace env (BaseDir ops);
          rel0 =
            (if baseDir \<noteq> [] then
               (case Rel env baseDir cleanIn of Some r \<Rightarrow> r | None \<Rightarrow> cleanIn)
             else if IsAbs env cleanIn then
               (case Getwd env of
                  Some cwd \<Rightarrow> (case Rel env cwd cleanIn of Some r \<Rightarrow> r | None \<Rightarrow> cleanIn)
                | None \<Rightarrow> cleanIn)
             else cleanIn);
          rel1 = (if BackslashPaths ops then slashToBackslash rel0 else rel0);
          rel2 = TrimPrefix rel1 [CHR ''.'', CHR 0x5C]
      in if LowercasePaths ops then ToLower env rel2 else rel2)"

definition resolveSuffixType :: "Env \<Rightarrow> BuildOptions \<Rightarrow> string \<Rightarrow> u32" where
  "resolveSuffixType env ops rel =
     (let key = (if LowercasePaths ops then ToLower env rel else rel) in
      case SuffixOverrides ops key of
        Some v \<Rightarrow> v
      | None \<Rightarrow> fst (GuessSuffixTypeFromPath (ToLower env) rel))"

definition zeroEntry :: TextureEntry where
  "zeroEntry =
     \<lparr>PAAFile = [], MipMaps = [], ColorPaletteCount = 0, PalettePtr = 0,
      AverageColorF = (0, 0, 0, 0), AverageColor = (0, 0, 0, 0), MaxColor = (0, 0, 0, 0),
      ClampFlags = 0, TransparentColor = 0, HasMaxCtagg = False, IsAlpha = False,
      IsTransparent = False, IsAlphaNonOpaque = False, MipMapCount = 0, PaxFormat = 0,
      LittleEndian = False, IsPAA = False, PaxSuffixType = 0, MipMapCountCopy = 0,
      PaxFileSize = 0\<rparr>"

definition assignColorHeaders :: "Env \<Rightarrow> TextureEntry \<Rightarrow> MetadataHeaders \<Rightarrow> TextureEntry" where
  "assignColorHeaders env entry meta =
     (let e1 = (if HasAverageColor meta
                then entry\<lparr>AverageColor := metaAverageColor meta\<rparr> else entry);
          e2 = (if HasMaxColor meta
                then e1\<lparr>MaxColor := metaMaxColor meta, HasMaxCtagg := True\<rparr>
                else e1\<lparr>MaxColor := (255, 255, 255, 255), HasMaxCtagg := False\<rparr>)
      in case AverageColor e2 of
           (c0, c1, c2, c3) \<Rightarrow>
             e2\<lparr>AverageColorF :=
                  (f32div255 env c2, f32div255 env c1, f32div255 env c0, f32div255 env c3)\<rparr>)"

definition assignFlagHeaders :: "TextureEntry \<Rightarrow> MetadataHeaders \<Rightarrow> TextureEntry" where
  "assignFlagHeaders entry meta =
     (if \<not> HasGALF meta
      then entry\<lparr>IsAlpha := False, IsTransparent := False, IsAlphaNonOpaque := False\<rparr>
      else
        (let flags = GALF meta;
             e1 = entry\<lparr>IsAlpha := (flags AND 1 \<noteq> 0), IsTransparent := (flags AND 2 \<noteq> 0)\<rparr>
         in case AverageColor e1 of
              (c0, c1, c2, c3) \<Rightarrow> e1\<lparr>IsAlphaNonOpaque := (IsAlpha e1 \<and> c3 < 0x80)\<rparr>))"

definition assignMipmaps :: "TextureEntry \<Rightarrow> MipHeader list \<Rightarrow> u8 \<Rightarrow> error + TextureEntry" where
  "assignMipmaps entry mips paxFormat =
     (let e1 = entry\<lparr>MipMaps :=
                 map (\<lambda>mip. \<lparr>Width = mhWidth mip, Height = mhHeight mip, AlwaysZero = 0,
                              MipPaxFormat = paxFormat, AlwaysThree = 3,
                              DataOffset = mhOffset mip\<rparr>) mips\<rparr>
      in case intToU32Strict (int (length (MipMaps e1))) of
           Inl err \<Rightarrow> Inl err
         | Inr mipCount \<Rightarrow> Inr (e1\<lparr>MipMapCount := mipCount, MipMapCountCopy := mipCount\<rparr>))"

definition buildEntry :: "Env \<Rightarrow> BuildOptions \<Rightarrow> string \<Rightarrow> error + TextureEntry" where
  "buildEntry env ops path =
     (let ext = ToLower env (Ext env path) in
      if ext = ''.paa'' then
        (case openAsset env path of
           Inl err \<Rightarrow> Inl err
         | Inr (fsize, meta) \<Rightarrow>
             (case paxTypeToU8 env (Type meta) of
                Inl err \<Rightarrow> Inl err
              | Inr paxFormat \<Rightarrow>
                  (let rel = normalizePath env ops path;
                       e1 = zeroEntry\<lparr>ColorPaletteCount := 1, PalettePtr := 0, ClampFlags := 0,
                              TransparentColor := 0xFFFFFFFF, LittleEndian := True,
                              IsPAA := EqualFold env ext ''.paa'', PAAFile := rel,
                              PaxFormat := Type meta,
                              PaxSuffixType := resolveSuffixType env ops rel\<rparr>
                   in case int64ToU32Strict fsize of
                        Inl err \<Rightarrow> Inl err
                      | Inr fileSize \<Rightarrow>
                          assignMipmaps
                            (assignFlagHeaders
                               (assignColorHeaders env (e1\<lparr>PaxFileSize := fileSize\<rparr>) meta)
                               meta)
                            (MipHeaders meta) paxFormat)))
      else if ext = ''.pac'' then Inl (ErrPACUnsupported path)
      else Inl (ErrUnsupportedInputFormat path))"
subsection \<open>Build: the serial loop and the worker pool\<close>

text \<open>
  \<open>sortStrings\<close> is \<^verbatim>\<open>sort.Strings\<close>: the ascending rearrangement of the slice under
  Go's string order, which compares byte by byte (the order of \<^typ>\<open>string\<close> here).
\<close>

definition sortStrings :: "string list \<Rightarrow> string list" where
  "sortStrings xs = sort xs"

text \<open>
  The serial loop of \<^verbatim>\<open>Build\<close>: \<open>be\<close> is \<^verbatim>\<open>b.buildEntry\<close>, \<open>skip\<close> is
  \<^verbatim>\<open>b.opts.SkipInvalid\<close>, \<open>tex\<close> is \<^verbatim>\<open>file.Textures\<close> and \<open>iss\<close> is \<^verbatim>\<open>b.issues\<close>.
  The result is the issues recorded and either the error returned or the textures.
\<close>

fun serialLoop ::
  "(string \<Rightarrow> error + TextureEntry) \<Rightarrow> bool \<Rightarrow> string list \<Rightarrow> TextureEntry list \<Rightarrow>
     BuildIssue list \<Rightarrow> BuildIssue list \<times> (error + TextureEntry list)" where
  "serialLoop be skip [] tex iss = (iss, Inr tex)"
| "serialLoop be skip (inp # rest) tex iss =
     (case be inp of
        Inl err \<Rightarrow>
          (if skip then serialLoop be skip rest tex (iss @ [\<lparr>Path = inp, Error = err\<rparr>])
           else (iss, Inl (BuildErr inp err)))
      | Inr entry \<Rightarrow> serialLoop be skip rest (tex @ [entry]) iss)"

text \<open>
  The worker pool. The state holds the index the dispatching loop sends next, the
  buffered channel \<open>queue\<close>, for every worker the job it has received and not yet
  finished, and the two result arrays. A step is one of: the dispatcher sends the next
  index; an idle worker receives the index at the head of the channel; a worker that
  holds job \<open>i\<close> finishes \<^verbatim>\<open>b.buildEntry(b.inputs[i])\<close> and writes \<open>errs[i]\<close> or
  \<open>entries[i]\<close>. Any interleaving of these steps is a run of the pool.
\<close>

record Pool =
  nextJob :: nat
  queue :: "nat list"
  running :: "nat option list"
  entries :: "TextureEntry list"
  errs :: "error option list"

definition pool_init :: "nat \<Rightarrow> nat \<Rightarrow> Pool" where
  "pool_init workers n =
     \<lparr>nextJob = 0, queue = [], running = replicate workers None,
      entries = replicate n zeroEntry, errs = replicate n None\<rparr>"

inductive pool_step ::
  "(string \<Rightarrow> error + TextureEntry) \<Rightarrow> string list \<Rightarrow> Pool \<Rightarrow> Pool \<Rightarrow> bool"
  for be :: "string \<Rightarrow> error + TextureEntry" and ins :: "string list" where
  dispatch:
    "nextJob st < length ins \<Longrightarrow>
       pool_step be ins st (st\<lparr>queue := queue st @ [nextJob st], nextJob := Suc (nextJob st)\<rparr>)"
| receive:
    "w < length (running st) \<Longrightarrow> running st ! w = None \<Longrightarrow> queue st = i # q \<Longrightarrow>
       pool_step be ins st (st\<lparr>queue := q, running := (running st)[w := Some i]\<rparr>)"
| finish_err:
    "w < length (running st) \<Longrightarrow> running st ! w = Some i \<Longrightarrow> be (ins ! i) = Inl err \<Longrightarrow>
       pool_step be ins st
         (st\<lparr>errs := (errs st)[i := Some err], running := (running st)[w := None]\<rparr>)"
| finish_ok:
    "w < length (running st) \<Longrightarrow> running st ! w = Some i \<Longrightarrow> be (ins ! i) = Inr entry \<Longrightarrow>
       pool_step be ins st
         (st\<lparr>entries := (entries st)[i := entry], running := (running st)[w := None]\<rparr>)"

text \<open>
  \<^verbatim>\<open>wg.Wait()\<close> returns when every index has been sent, the channel is drained and no
  worker holds a job.
\<close>

definition pool_done :: "string list \<Rightarrow> Pool \<Rightarrow> bool" where
  "pool_done ins st =
     (nextJob st = length ins \<and> queue st = [] \<and> list_all (\<lambda>r. r = None) (running st))"

definition pool_run ::
  "(string \<Rightarrow> error + TextureEntry) \<Rightarrow> string list \<Rightarrow> nat \<Rightarrow> Pool \<Rightarrow> bool" where
  "pool_run be ins workers st =
     ((pool_step be ins)\<^sup>*\<^sup>* (pool_init workers (length ins)) st \<and> pool_done ins st)"

text \<open>The loop that collects the results of the workers, in index order.\<close>

fun collectLoop ::
  "bool \<Rightarrow> string list \<Rightarrow> nat \<Rightarrow> TextureEntry list \<Rightarrow> error option list \<Rightarrow>
     TextureEntry list \<Rightarrow> BuildIssue list \<Rightarrow> BuildIssue list \<times> (error + TextureEntry list)" where
  "collectLoop skip [] i es ers tex iss = (iss, Inr tex)"
| "collectLoop skip (inp # rest) i es ers tex iss =
     (case ers ! i of
        None \<Rightarrow> collectLoop skip rest (Suc i) es ers (tex @ [es ! i]) iss
      | Some err \<Rightarrow>
          (if skip
           then collectLoop skip rest (Suc i) es ers tex (iss @ [\<lparr>Path = inp, Error = err\<rparr>])
           else (iss, Inl (BuildErr inp err))))"

definition finishBuild ::
  "Builder \<Rightarrow> BuildIssue list \<times> (error + TextureEntry list) \<Rightarrow> Builder \<times> (error + File)" where
  "finishBuild b res =
     (case res of
        (iss, Inl err) \<Rightarrow> (b\<lparr>issues := iss\<rparr>, Inl err)
      | (iss, Inr tex) \<Rightarrow>
          (b\<lparr>issues := iss\<rparr>,
           Inr \<lparr>Magic = FileMagic, Textures = tex, Version = SupportedVersion\<rparr>))"

definition prepareInputs :: "Builder \<Rightarrow> Builder" where
  "prepareInputs b =
     (let b1 = (if \<not> inputsSorted b
                then b\<lparr>inputs := sortStrings (inputs b), inputsSorted := True\<rparr> else b)
      in b1\<lparr>issues := []\<rparr>)"

text \<open>
  \<open>Build_returns env b r\<close>: a call of \<^verbatim>\<open>Build\<close> on the builder \<open>b\<close> can return with
  \<open>r\<close>, the builder after the call and the error or the file. The parallel branch returns
  what the collecting loop makes of the arrays of any finished run of the pool. No result
  is related when the resolution of the worker count does not return.
\<close>

definition Build_returns :: "Env \<Rightarrow> Builder \<Rightarrow> Builder \<times> (error + File) \<Rightarrow> bool" where
  "Build_returns env b r =
     (let b1 = prepareInputs b;
          n = length (inputs b1);
          be = buildEntry env (opts b1);
          skip = SkipInvalid (opts b1)
      in if n = 0 then r = finishBuild b1 ([], Inr [])
         else
           (case resolveBuildWorkers (GOMAXPROCS env) (Workers (opts b1)) (int n) of
              None \<Rightarrow> False
            | Some workers \<Rightarrow>
                if workers \<le> 1
                then r = finishBuild b1 (serialLoop be skip (inputs b1) [] [])
                else
                  (let workers1 = (if workers > int n then int n else workers) in
                   \<exists>st. pool_run be (inputs b1) (nat workers1) st \<and>
                        r = finishBuild b1
                              (collectLoop skip (inputs b1) 0 (entries st) (errs st) [] []))))"

definition withWorkers :: "int \<Rightarrow> Builder \<Rightarrow> Builder" where
  "withWorkers w b = b\<lparr>opts := (opts b)\<lparr>Workers := w\<rparr>\<rparr>"

code_pred pool_step .

subsection \<open>The invariant of the worker pool\<close>

text \<open>
  \<open>slot_ok\<close>: slot \<open>i\<close> of the result arrays holds what \<^verbatim>\<open>buildEntry\<close> returns for
  input \<open>i\<close>. \<open>pending\<close>: job \<open>i\<close> has not been sent yet, waits in the channel, or is
  held by a worker. The invariant: every slot is either written correctly, or still
  untouched with its job pending.
\<close>

definition slot_ok ::
  "(string \<Rightarrow> error + TextureEntry) \<Rightarrow> string list \<Rightarrow> Pool \<Rightarrow> nat \<Rightarrow> bool" where
  "slot_ok be ins st i =
     (case be (ins ! i) of
        Inl err \<Rightarrow> errs st ! i = Some err
      | Inr entry \<Rightarrow> errs st ! i = None \<and> entries st ! i = entry)"

definition pending :: "Pool \<Rightarrow> nat \<Rightarrow> bool" where
  "pending st i = (nextJob st \<le> i \<or> i \<in> set (queue st) \<or> Some i \<in> set (running st))"

definition pool_inv ::
  "(string \<Rightarrow> error + TextureEntry) \<Rightarrow> string list \<Rightarrow> Pool \<Rightarrow> bool" where
  "pool_inv be ins st =
     (length (entries st) = length ins \<and> length (errs st) = length ins \<and>
      nextJob st \<le> length ins \<and>
      (\<forall>i \<in> set (queue st). i < nextJob st) \<and>
      (\<forall>i. Some i \<in> set (running st) \<longrightarrow> i < nextJob st) \<and>
      (\<forall>i < length ins. slot_ok be ins st i \<or> (errs st ! i = None \<and> pending st i)))"


text \<open>
  The fully serial build: the serial loop over the prepared inputs, whatever the
  \<open>Workers\<close> option says.
\<close>

definition BuildSerial :: "Env \<Rightarrow> Builder \<Rightarrow> Builder \<times> (error + File)" where
  "BuildSerial env b =
     (let b1 = prepareInputs b in
      finishBuild b1
        (serialLoop (buildEntry env (opts b1)) (SkipInvalid (opts b1)) (inputs b1) [] []))"

text \<open>
  A sequence of \<open>Append\<close> calls (the error of a call is dropped, as a caller may), and the
  entries of the inputs that build, in the order of the inputs.
\<close>

definition appendAll :: "Env \<Rightarrow> Builder \<Rightarrow> string list \<Rightarrow> Builder" where
  "appendAll env b ps = foldl (\<lambda>b p. fst (Append env b p)) b ps"

definition built_entries :: "(string \<Rightarrow> error + TextureEntry) \<Rightarrow> string list \<Rightarrow> TextureEntry list" where
  "built_entries be ps = concat (map (\<lambda>p. case be p of Inl err \<Rightarrow> [] | Inr e \<Rightarrow> [e]) ps)"


text \<open>
  A host whose paths are ASCII strings and that has every asset, and options that ask for
  neither normalisation. On ASCII strings \<^verbatim>\<open>strings.TrimSpace\<close> strips the six ASCII
  white-space bytes and \<^verbatim>\<open>strings.EqualFold\<close> compares the lower-cased strings.
\<close>

definition isSpace :: "char \<Rightarrow> bool" where
  "isSpace c = (c \<in> {CHR 0x09, CHR 0x0A, CHR 0x0B, CHR 0x0C, CHR 0x0D, CHR '' ''})"

definition trimSpaceASCII :: "string \<Rightarrow> string" where
  "trimSpaceASCII s = rev (dropWhile isSpace (rev (dropWhile isSpace s)))"

definition sample_meta :: MetadataHeaders where
  "sample_meta =
     \<lparr>Type = 6, HasAverageColor = False, metaAverageColor = (0, 0, 0, 0),
      HasMaxColor = False, metaMaxColor = (0, 0, 0, 0), HasGALF = False, GALF = 0,
      MipHeaders = []\<rparr>"

definition sample_env :: Env where
  "sample_env =
     \<lparr>ToLower = lowerASCII, TrimSpace = trimSpaceASCII,
      EqualFold = (\<lambda>s t. lowerASCII s = lowerASCII t),
      Clean = (\<lambda>p. p), Rel = (\<lambda>base p. Some p), IsAbs = (\<lambda>p. False), Getwd = None,
      Ext = (\<lambda>p. drop (length p - 4) p), GOMAXPROCS = 8,
      openAsset = (\<lambda>p. Inr (7, sample_meta)), f32div255 = (\<lambda>c. 0),
      PaxGRAYA = 1, PaxARGBA5 = 2, PaxARGB4 = 3, PaxARGB8 = 4, PaxDXT1 = 6, PaxDXT2 = 7,
      PaxDXT3 = 8, PaxDXT4 = 9, PaxDXT5 = 10\<rparr>"

definition sample_opts :: BuildOptions where
  "sample_opts =
     \<lparr>SuffixOverrides = Map.empty, BaseDir = [], SkipInvalid = True,
      LowercasePaths = False, BackslashPaths = False, Workers = 16\<rparr>"

definition sample_paths :: "string list" where
  "sample_paths = [''z.txt'', ''a/X_no.paa'', ''B/y_co.paa'']"


definition sample_builder :: Builder where
  "sample_builder = appendAll sample_env (NewBuilder sample_opts) sample_paths"

definition sample_built :: "string \<Rightarrow> u32 \<Rightarrow> TextureEntry" where
  "sample_built path suffix =
     \<lparr>PAAFile = path, MipMaps = [], ColorPaletteCount = 1, PalettePtr = 0,
      AverageColorF = (0, 0, 0, 0), AverageColor = (0, 0, 0, 0),
      MaxColor = (255, 255, 255, 255), ClampFlags = 0, TransparentColor = 4294967295,
      HasMaxCtagg = False, IsAlpha = False, IsTransparent = False,
      IsAlphaNonOpaque = False, MipMapCount = 0, PaxFormat = 6, LittleEndian = True,
      IsPAA = True, PaxSuffixType = suffix, MipMapCountCopy = 0, PaxFileSize = 7\<rparr>"

definition sample_file :: File where
  "sample_file =
     \<lparr>Magic = ''0DHT'',
      Textures =
        [sample_built [CHR ''b'', CHR 0x5C, CHR ''y'', CHR ''_'', CHR ''c'', CHR ''o'',
                       CHR ''.'', CHR ''p'', CHR ''a'', CHR ''a''] 0,
         sample_built [CHR ''a'', CHR 0x5C, CHR ''x'', CHR ''_'', CHR ''n'', CHR ''o'',
                       CHR ''.'', CHR ''p'', CHR ''a'', CHR ''a''] 3],
      Version = 1\<rparr>"

definition sample_result :: "error + File" where
  "sample_result = Inr sample_file"

section \<open>Verified properties\<close>

subsection \<open>Little-endian fields and strings round-trip\<close>

lemma getU32_putU32:
  "getU32 (ucast v) (ucast (drop_bit 8 v)) (ucast (drop_bit 16 v)) (ucast (drop_bit 24 v)) = v"
  unfolding getU32_def
proof (rule bit_word_eqI)
  fix n :: nat
  assume n: "n < LENGTH(32)"
  have c: "n < 8 \<or> (8 \<le> n \<and> n < 16) \<or> (16 \<le> n \<and> n < 24) \<or> (24 \<le> n \<and> n < 32)"
    using n by auto
  show "bit (ucast (ucast v :: u8) OR push_bit 8 (ucast (ucast (drop_bit 8 v) :: u8)) OR
            push_bit 16 (ucast (ucast (drop_bit 16 v) :: u8)) OR
            push_bit 24 (ucast (ucast (drop_bit 24 v) :: u8)) :: u32) n = bit v n"
    using c n by (auto simp add: bit_simps)
qed

lemma putU32_getU32: "putU32 (getU32 a b c d) = [a, b, c, d]"
  unfolding getU32_def putU32_def
  apply simp
  apply (intro conjI; rule bit_word_eqI)
     apply (auto simp add: bit_simps dest: bit_imp_le_length)
  done

lemma getU16_putU16: "getU16 (ucast v) (ucast (drop_bit 8 v)) = v"
  unfolding getU16_def
proof (rule bit_word_eqI)
  fix n :: nat
  assume n: "n < LENGTH(16)"
  have c: "n < 8 \<or> (8 \<le> n \<and> n < 16)"
    using n by auto
  show "bit (ucast (ucast v :: u8) OR push_bit 8 (ucast (ucast (drop_bit 8 v) :: u8)) :: u16) n
        = bit v n"
    using c n by (auto simp add: bit_simps)
qed

lemma putU16_getU16: "putU16 (getU16 a b) = [a, b]"
  unfolding getU16_def putU16_def
  apply simp
  apply (intro conjI; rule bit_word_eqI)
   apply (auto simp add: bit_simps dest: bit_imp_le_length)
  done

lemma byte_of_char_of_byte: "byte_of_char (char_of_byte b) = b"
proof -
  have lt: "unat b < 256"
    using unsigned_less [of b, where 'a = nat] by simp
  have "(of_char (char_of (unat b)) :: nat) = unat b"
    using lt by simp
  then have "(of_nat (of_char (char_of (unat b)) :: nat) :: u8) = of_nat (unat b)"
    by simp
  then have "(of_char (char_of (unat b)) :: u8) = b"
    by (simp only: of_nat_of_char of_nat_unat ucast_id)
  then show ?thesis
    by (simp add: byte_of_char_def char_of_byte_def)
qed

lemma char_of_byte_of_char: "char_of_byte (byte_of_char c) = c"
proof -
  have "(of_char c :: u8) = of_nat (of_char c :: nat)"
    by (simp only: of_nat_of_char)
  then have "unat (of_char c :: u8) = (of_char c :: nat) mod 256"
    by (simp add: unat_of_nat)
  then show ?thesis
    by (simp add: byte_of_char_def char_of_byte_def)
qed

lemma bytes_of_string_of_bytes: "bytes_of_string (string_of_bytes bs) = bs"
  by (induction bs) (simp_all add: bytes_of_string_def string_of_bytes_def byte_of_char_of_byte)

lemma string_of_bytes_of_string: "string_of_bytes (bytes_of_string s) = s"
  by (induction s) (simp_all add: bytes_of_string_def string_of_bytes_def char_of_byte_of_char)

text \<open>The lengths of the encoded fields.\<close>

lemma len_writeU32: "length (writeU32 v) = 4"
  by (simp add: writeU32_def putU32_def)

lemma len_putU32: "length (putU32 v) = 4"
  by (simp add: putU32_def)

lemma len_writeBool8: "length (writeBool8 v) = 1"
  by (simp add: writeBool8_def writeU8_def)

lemma len_write4F: "length (write4F v) = 16"
  by (cases v) (simp add: write4F_def writeF32_def len_writeU32)

lemma len_write4B: "length (write4B v) = 4"
  by (cases v) (simp add: write4B_def)

lemma len_entryHead: "length (entryHead e) = 44"
  by (simp add: entryHead_def len_writeU32 len_write4F len_write4B len_writeBool8)

lemma len_writeASCIIZ: "length (writeASCIIZ s) = length s + 1"
  by (simp add: writeASCIIZ_def bytes_of_string_def writeU8_def)

lemma len_writeMipMap: "length (writeMipMap m) = 12"
  by (simp add: writeMipMap_def writeU16_def putU16_def writeU8_def len_writeU32)

lemma len_concat_mips: "length (concat (map writeMipMap ms)) = 12 * length ms"
  by (induction ms) (simp_all add: len_writeMipMap)

subsection \<open>The magic check of the encoder\<close>

text \<open>
  C3. An empty \<open>Magic\<close> is replaced by the fixed tag, and a \<open>Magic\<close> that is not four
  bytes long is rejected before anything is written. The claim asks for an error on every
  non-empty \<open>Magic\<close> different from the tag; the guard of \<^verbatim>\<open>Write\<close> compares the
  length only, so the four-byte tag \<open>ABCD\<close> is written out and no error is returned.
\<close>

theorem Write_accepts_mismatched_magic:
  "Write (Some \<lparr>Magic = ''ABCD'', Textures = [], Version = 1\<rparr>)
     = ([65, 66, 67, 68, 1, 0, 0, 0, 0, 0, 0, 0], None)"
  by (simp add: Write_def FileMagic_def SupportedVersion_def bytes_of_string_def
      byte_of_char_def writeU32_def putU32_def writeU32FromInt_def intToU32Strict_def
      MaxUint32_def)

lemma Write_empty_magic_substituted:
  "Write (Some (f\<lparr>Magic := []\<rparr>)) = Write (Some (f\<lparr>Magic := FileMagic\<rparr>))"
  by (simp add: Write_def FileMagic_def Let_def split: sum.split)

lemma Write_bad_magic_length:
  "Magic f \<noteq> [] \<Longrightarrow> length (Magic f) \<noteq> 4 \<Longrightarrow>
     Write (Some f) = ([], Some (ErrInvalidMagic (Magic f)))"
  by (simp add: Write_def Let_def)

subsection \<open>Decoding, then encoding\<close>

lemma normalise_bools_append:
  "length m1 = length p1 \<Longrightarrow>
     normalise_bools (m1 @ m2) (p1 @ p2) = normalise_bools m1 p1 @ normalise_bools m2 p2"
  by (simp add: normalise_bools_def)

lemma normalise_bools_plain: "normalise_bools (plain p) p = p"
  by (induction p) (simp_all add: normalise_bools_def plain_def)

lemma reencodes_exact: "reencodes (plain p) (p @ rest) p rest"
  unfolding reencodes_def
  by (rule exI [of _ p]) (simp add: normalise_bools_plain, simp add: plain_def)

lemma reencodes_nil: "reencodes [] rest [] rest"
  unfolding reencodes_def by (simp add: normalise_bools_def)

lemma reencodes_seq:
  assumes "reencodes m1 bs o1 r1" and "reencodes m2 r1 o2 rest"
  shows "reencodes (m1 @ m2) bs (o1 @ o2) rest"
proof -
  from assms obtain p1 p2 where
    p1: "bs = p1 @ r1" "length p1 = length m1" "o1 = normalise_bools m1 p1" and
    p2: "r1 = p2 @ rest" "length p2 = length m2" "o2 = normalise_bools m2 p2"
    unfolding reencodes_def by blast
  show ?thesis
    unfolding reencodes_def
    using p1 p2 by (intro exI [of _ "p1 @ p2"]) (simp add: normalise_bools_append)
qed

lemma bindD_InrE:
  assumes "bindD m f bs = Inr r"
  obtains a rest where "m bs = Inr (a, rest)" and "f a rest = Inr r"
  using assms by (auto simp: bindD_def split: sum.splits)

lemma ctx_Inr: "ctx s m bs = Inr r \<longleftrightarrow> m bs = Inr r"
  by (auto simp: ctx_def split: sum.splits)

lemma readFull_Inr: "readFull n bs = Inr (t, rest) \<Longrightarrow> bs = t @ rest \<and> length t = n"
  by (auto simp: readFull_def split: if_splits)

lemma readU8_Inr: "readU8 bs = Inr (v, rest) \<Longrightarrow> bs = writeU8 v @ rest"
  by (auto simp: readU8_def writeU8_def split: sum.splits list.splits dest!: readFull_Inr)

lemma readBool8_Inr:
  "readBool8 bs = Inr (v, rest) \<Longrightarrow> reencodes bool_field bs (writeBool8 v) rest"
  unfolding reencodes_def bool_field_def
  by (auto simp: readBool8_def writeBool8_def writeU8_def normalise_bools_def norm8_def
      split: sum.splits dest!: readU8_Inr)

lemma readU16_Inr: "readU16 bs = Inr (v, rest) \<Longrightarrow> bs = writeU16 v @ rest"
  by (auto simp: readU16_def writeU16_def putU16_getU16 split: sum.splits list.splits dest!: readFull_Inr)

lemma readU32_Inr: "readU32 bs = Inr (v, rest) \<Longrightarrow> bs = writeU32 v @ rest"
  by (auto simp: readU32_def writeU32_def putU32_getU32 split: sum.splits list.splits dest!: readFull_Inr)

lemma readF32_Inr: "readF32 bs = Inr (v, rest) \<Longrightarrow> bs = writeF32 v @ rest"
  by (auto simp: readF32_def writeF32_def split: sum.splits dest!: readU32_Inr)

lemma read4B_Inr: "read4B bs = Inr (v, rest) \<Longrightarrow> bs = write4B v @ rest"
  by (auto simp: read4B_def write4B_def split: sum.splits list.splits dest!: readFull_Inr)

lemma readASCIIZ_loop_Inr:
  "readASCIIZ_loop buf bs = Inr (s, rest) \<Longrightarrow>
     \<exists>t. bs = t @ 0 # rest \<and> s = string_of_bytes (buf @ t) \<and> 0 \<notin> set t"
proof (induction buf bs rule: readASCIIZ_loop.induct)
  case (1 buf)
  then show ?case by simp
next
  case (2 buf b rest')
  show ?case
  proof (cases "b = 0")
    case True
    with 2 show ?thesis by auto
  next
    case False
    with 2 obtain t where "rest' = t @ 0 # rest" "s = string_of_bytes ((buf @ [b]) @ t)" "0 \<notin> set t"
      by auto
    with False show ?thesis by (intro exI[of _ "b # t"]) auto
  qed
qed

lemma readASCIIZ_Inr: "readASCIIZ bs = Inr (s, rest) \<Longrightarrow> bs = writeASCIIZ s @ rest"
  by (auto simp: readASCIIZ_def writeASCIIZ_def writeU8_def bytes_of_string_of_bytes
      dest!: readASCIIZ_loop_Inr)

lemma readMipMap_Inr: "readMipMap bs = Inr (m, rest) \<Longrightarrow> bs = writeMipMap m @ rest"
  unfolding readMipMap_def
  apply (elim bindD_InrE)
  apply (simp add: ctx_Inr returnD_def)
  apply (auto simp: writeMipMap_def dest!: readU16_Inr readU8_Inr readU32_Inr)
  done


declare readMipMaps.simps [simp del]
declare readEntries.simps [simp del]

lemma readMipMaps_Inr:
  "readMipMaps i n acc bs = Inr (ms, rest) \<Longrightarrow>
     \<exists>ms'. ms = acc @ ms' \<and> length ms' = n - i \<and> bs = concat (map writeMipMap ms') @ rest"
proof (induction i n acc bs rule: readMipMaps.induct)
  case (1 i n acc bs)
  show ?case
  proof (cases "i < n")
    case False
    with "1.prems" show ?thesis by (simp add: readMipMaps.simps)
  next
    case True
    from "1.prems" True obtain m r1 where
      m: "readMipMap bs = Inr (m, r1)" and
      r: "readMipMaps (Suc i) n (acc @ [m]) r1 = Inr (ms, rest)"
      by (subst (asm) readMipMaps.simps) (auto split: sum.splits)
    from "1.IH" [OF True m refl r] obtain ms' where
      ms': "ms = (acc @ [m]) @ ms'" "length ms' = n - Suc i"
      "r1 = concat (map writeMipMap ms') @ rest"
      by blast
    from readMipMap_Inr [OF m] have bs: "bs = writeMipMap m @ r1" .
    show ?thesis
      using ms' bs True by (intro exI [of _ "m # ms'"]) auto
  qed
qed

lemma read4F_Inr: "read4F bs = Inr (v, rest) \<Longrightarrow> bs = write4F v @ rest"
  unfolding read4F_def
  apply (elim bindD_InrE)
  apply (auto simp: returnD_def write4F_def split: sum.splits dest!: readF32_Inr)
  done

lemma rU32: "readU32 bs = Inr (v, rest) \<Longrightarrow> reencodes (plain (writeU32 v)) bs (writeU32 v) rest"
  using readU32_Inr reencodes_exact by metis

lemma r4F: "read4F bs = Inr (v, rest) \<Longrightarrow> reencodes (plain (write4F v)) bs (write4F v) rest"
  using read4F_Inr reencodes_exact by metis

lemma r4B: "read4B bs = Inr (v, rest) \<Longrightarrow> reencodes (plain (write4B v)) bs (write4B v) rest"
  using read4B_Inr reencodes_exact by metis

lemma rASCIIZ:
  "readASCIIZ bs = Inr (v, rest) \<Longrightarrow> reencodes (plain (writeASCIIZ v)) bs (writeASCIIZ v) rest"
  using readASCIIZ_Inr reencodes_exact by metis

lemma rMips:
  "readMipMaps 0 n [] bs = Inr (ms, rest) \<Longrightarrow>
     reencodes (plain (concat (map writeMipMap ms))) bs (concat (map writeMipMap ms)) rest \<and>
     length ms = n"
  using readMipMaps_Inr [of 0 n "[]" bs ms rest] reencodes_exact by auto

lemma readTextureEntry_Inr:
  assumes "readTextureEntry bs = Inr (e, rest)"
  shows "reencodes
           (plain (writeU32 (ColorPaletteCount e)) @ plain (writeU32 (PalettePtr e)) @
            plain (write4F (AverageColorF e)) @ plain (write4B (AverageColor e)) @
            plain (write4B (MaxColor e)) @ plain (writeU32 (ClampFlags e)) @
            plain (writeU32 (TransparentColor e)) @
            bool_field @ bool_field @ bool_field @ bool_field @
            plain (writeU32 (MipMapCount e)) @ plain (writeU32 (PaxFormat e)) @
            bool_field @ bool_field @
            plain (writeASCIIZ (PAAFile e)) @ plain (writeU32 (PaxSuffixType e)) @
            plain (writeU32 (MipMapCountCopy e)) @
            plain (concat (map writeMipMap (MipMaps e))) @
            plain (writeU32 (PaxFileSize e)))
           bs (writeTextureEntry e) rest \<and>
         length (MipMaps e) = unat (MipMapCountCopy e)"
  using assms unfolding readTextureEntry_def
  apply (elim bindD_InrE)
  apply (simp only: ctx_Inr)
  apply (drule rU32 r4F r4B rASCIIZ rMips readBool8_Inr)+
  apply (clarsimp simp add: returnD_def writeTextureEntry_def entryHead_def)
  apply (erule reencodes_seq)+
  apply assumption
  done

lemma replicate_append_same2:
  "replicate m x @ replicate n x @ r = replicate (m + n) x @ r"
  by (simp add: replicate_add)

lemma bool_field4: "bool_field @ bool_field @ bool_field @ bool_field @ r = replicate 4 True @ r"
  by (simp add: bool_field_def numeral_eq_Suc)

lemma bool_field2: "bool_field @ bool_field @ r = replicate 2 True @ r"
  by (simp add: bool_field_def numeral_eq_Suc)

lemma entry_bool_mask_fields:
  "plain (writeU32 (ColorPaletteCount e)) @ plain (writeU32 (PalettePtr e)) @
   plain (write4F (AverageColorF e)) @ plain (write4B (AverageColor e)) @
   plain (write4B (MaxColor e)) @ plain (writeU32 (ClampFlags e)) @
   plain (writeU32 (TransparentColor e)) @
   bool_field @ bool_field @ bool_field @ bool_field @
   plain (writeU32 (MipMapCount e)) @ plain (writeU32 (PaxFormat e)) @
   bool_field @ bool_field @
   plain (writeASCIIZ (PAAFile e)) @ plain (writeU32 (PaxSuffixType e)) @
   plain (writeU32 (MipMapCountCopy e)) @
   plain (concat (map writeMipMap (MipMaps e))) @
   plain (writeU32 (PaxFileSize e)) = entry_bool_mask e"
proof -
  have t: "plain (writeASCIIZ (PAAFile e)) @ plain (writeU32 (PaxSuffixType e)) @
      plain (writeU32 (MipMapCountCopy e)) @ plain (concat (map writeMipMap (MipMaps e))) @
      plain (writeU32 (PaxFileSize e))
      = replicate (length (PAAFile e) + 1 + 4 + 4 + 12 * length (MipMaps e) + 4) False"
    by (simp only: plain_def len_writeASCIIZ len_writeU32 len_concat_mips
        replicate_add append_assoc)
  have h: "plain (writeU32 a) @ plain (writeU32 b) @ plain (write4F c) @ plain (write4B d) @
      plain (write4B d') @ plain (writeU32 f) @ plain (writeU32 g) @ r = replicate 40 False @ r"
    for a b c d d' f g r
    by (simp add: plain_def replicate_append_same2 len_writeU32 len_write4F len_write4B)
  have m: "plain (writeU32 a) @ plain (writeU32 b) @ r = replicate 8 False @ r" for a b r
    by (simp add: plain_def replicate_append_same2 len_writeU32)
  show ?thesis
    apply (subst t)
    apply (subst h)
    apply (subst bool_field4)
    apply (subst m)
    apply (subst bool_field2)
    apply (simp only: entry_bool_mask_def)
    done
qed

lemma readTextureEntry_mask:
  assumes "readTextureEntry bs = Inr (e, rest)"
  shows "reencodes (entry_bool_mask e) bs (writeTextureEntry e) rest"
  using readTextureEntry_Inr [OF assms] by (simp only: entry_bool_mask_fields)

lemma readEntries_Inr:
  "readEntries i n acc bs = Inr (es, rest) \<Longrightarrow>
     \<exists>es'. es = acc @ es' \<and> length es' = n - i \<and>
           reencodes (concat (map entry_bool_mask es')) bs
             (concat (map writeTextureEntry es')) rest"
proof (induction i n acc bs rule: readEntries.induct)
  case (1 i n acc bs)
  show ?case
  proof (cases "i < n")
    case False
    with "1.prems" show ?thesis by (simp add: readEntries.simps reencodes_nil)
  next
    case True
    from "1.prems" True obtain e r1 where
      e: "readTextureEntry bs = Inr (e, r1)" and
      r: "readEntries (Suc i) n (acc @ [e]) r1 = Inr (es, rest)"
      by (subst (asm) readEntries.simps) (auto split: sum.splits)
    from "1.IH" [OF True e refl r] obtain es' where
      es': "es = (acc @ [e]) @ es'" "length es' = n - Suc i"
      "reencodes (concat (map entry_bool_mask es')) r1
         (concat (map writeTextureEntry es')) rest"
      by blast
    have "reencodes (concat (map entry_bool_mask (e # es'))) bs
        (concat (map writeTextureEntry (e # es'))) rest"
      using reencodes_seq [OF readTextureEntry_mask [OF e] es'(3)] by simp
    then show ?thesis
      using es' True by (intro exI [of _ "e # es'"]) auto
  qed
qed

lemma normalise_bools_length:
  "length p = length ms \<Longrightarrow> length (normalise_bools ms p) = length p"
  by (simp add: normalise_bools_def)

lemma norm8_fixed: "norm8 b = b \<longleftrightarrow> b = 0 \<or> b = 1"
  by (auto simp: norm8_def)

lemma normalise_bools_fixed:
  assumes "length p = length ms"
  shows "normalise_bools ms p = p \<longleftrightarrow> (\<forall>i < length p. ms ! i \<longrightarrow> p ! i = 0 \<or> p ! i = 1)"
proof -
  have "normalise_bools ms p = p \<longleftrightarrow>
      (\<forall>i < length p. normalise_bools ms p ! i = p ! i)"
    using normalise_bools_length [OF assms] by (auto simp: list_eq_iff_nth_eq)
  also have "\<dots> \<longleftrightarrow> (\<forall>i < length p. (if ms ! i then norm8 (p ! i) else p ! i) = p ! i)"
    using assms by (simp add: normalise_bools_def)
  also have "\<dots> \<longleftrightarrow> (\<forall>i < length p. ms ! i \<longrightarrow> p ! i = 0 \<or> p ! i = 1)"
    by (auto simp: norm8_fixed)
  finally show ?thesis .
qed

lemma writeU32FromInt_uint: "writeU32FromInt (uint (c :: u32)) = Inr (writeU32 c)"
proof -
  have "uint c < 2 ^ 32"
    using unsigned_less [of c, where 'a = int] by simp
  then have "uint c \<le> MaxUint32"
    by (simp add: MaxUint32_def)
  then show ?thesis
    by (simp add: writeU32FromInt_def intToU32Strict_def)
qed

lemma string_of_bytes_magic:
  "string_of_bytes t = FileMagic \<Longrightarrow> bytes_of_string FileMagic = t"
  using bytes_of_string_of_bytes [of t] by simp

text \<open>
  C1 (as amended). For every buffer \<open>B\<close> that the decoder parses without error, leaving
  \<open>rest\<close> unread, the encoder succeeds on the decoded file \<open>f\<close>, and its output is the
  consumed prefix \<open>p\<close> of \<open>B\<close> with the six boolean bytes of every entry normalised (a
  boolean byte other than \<open>0\<close> comes back as \<open>1\<close>) and every other byte unchanged; the
  unread bytes are not reproduced. So the output is \<open>B\<close> itself exactly when nothing is
  left unread and every boolean byte of \<open>B\<close> is \<open>0\<close> or \<open>1\<close>.
\<close>

theorem Read_Write_roundtrip:
  assumes "ReadS B = Inr (f, rest)"
  shows "\<exists>p. B = p @ rest \<and> length p = length (file_bool_mask f) \<and>
             Write (Some f) = (normalise_bools (file_bool_mask f) p, None) \<and>
             (Write (Some f) = (B, None) \<longleftrightarrow>
                rest = [] \<and>
                (\<forall>i < length B. file_bool_mask f ! i \<longrightarrow> B ! i = 0 \<or> B ! i = 1))"
proof -
  from assms obtain t r1 v r2 c r3 es where
    t: "readFull 4 B = Inr (t, r1)" and
    m: "string_of_bytes t = FileMagic" and
    v: "readU32 r1 = Inr (v, r2)" "v = SupportedVersion" and
    c: "readU32 r2 = Inr (c, r3)" and
    es: "readEntries 0 (unat c) [] r3 = Inr (es, rest)" and
    f: "f = \<lparr>Magic = FileMagic, Textures = es, Version = SupportedVersion\<rparr>"
    unfolding ReadS_def
    by (auto simp: Let_def ctx_Inr returnD_def elim!: bindD_InrE split: if_splits)
  from readEntries_Inr [OF es] have
    len: "length es = unat c" and
    re: "reencodes (concat (map entry_bool_mask es)) r3
           (concat (map writeTextureEntry es)) rest"
    by auto
  let ?h = "bytes_of_string FileMagic @ writeU32 SupportedVersion @ writeU32 c"
  have B: "B = ?h @ r3"
    using readFull_Inr [OF t] string_of_bytes_magic [OF m] readU32_Inr [OF v(1)]
      readU32_Inr [OF c] v(2) by simp
  have W: "Write (Some f) = (?h @ concat (map writeTextureEntry es), None)"
    by (simp add: Write_def f FileMagic_def SupportedVersion_def len writeU32FromInt_uint Let_def)
  have hl: "plain ?h = replicate 12 False"
    by (simp add: plain_def FileMagic_def bytes_of_string_def len_writeU32)
  have "reencodes (plain ?h @ concat (map entry_bool_mask es)) (?h @ r3)
      (?h @ concat (map writeTextureEntry es)) rest"
    by (rule reencodes_seq [OF reencodes_exact re])
  then have "reencodes (file_bool_mask f) B (?h @ concat (map writeTextureEntry es)) rest"
    unfolding hl by (simp add: B file_bool_mask_def f)
  then obtain p where p: "B = p @ rest" "length p = length (file_bool_mask f)"
    "?h @ concat (map writeTextureEntry es) = normalise_bools (file_bool_mask f) p"
    unfolding reencodes_def by blast
  have Wp: "Write (Some f) = (normalise_bools (file_bool_mask f) p, None)"
    using W p(3) by simp
  have "Write (Some f) = (B, None) \<longleftrightarrow>
      rest = [] \<and> (\<forall>i < length B. file_bool_mask f ! i \<longrightarrow> B ! i = 0 \<or> B ! i = 1)"
  proof
    assume "Write (Some f) = (B, None)"
    then have e: "normalise_bools (file_bool_mask f) p = p @ rest"
      using Wp p(1) by simp
    then have "length (normalise_bools (file_bool_mask f) p) = length (p @ rest)"
      by simp
    then have r: "rest = []"
      using normalise_bools_length [OF p(2)] by simp
    with e have "normalise_bools (file_bool_mask f) p = p"
      by simp
    then show "rest = [] \<and>
        (\<forall>i < length B. file_bool_mask f ! i \<longrightarrow> B ! i = 0 \<or> B ! i = 1)"
      using normalise_bools_fixed [OF p(2)] r p(1) by simp
  next
    assume a: "rest = [] \<and>
        (\<forall>i < length B. file_bool_mask f ! i \<longrightarrow> B ! i = 0 \<or> B ! i = 1)"
    then have "B = p" using p(1) by simp
    with a have "normalise_bools (file_bool_mask f) p = p"
      using normalise_bools_fixed [OF p(2)] by simp
    with Wp \<open>B = p\<close> show "Write (Some f) = (B, None)"
      by simp
  qed
  with p(1,2) Wp show ?thesis
    by blast
qed

theorem Read_Write_roundtrip_witness:
  "ReadS buffer_bool2 = Inr (file_bool2, []) \<and>
   length buffer_bool2 = length (file_bool_mask file_bool2) \<and>
   filter (\<lambda>i. file_bool_mask file_bool2 ! i) [0 ..< length buffer_bool2]
     = [52, 53, 54, 55, 64, 65] \<and>
   normalise_bools (file_bool_mask file_bool2) buffer_bool2 = buffer_bool1 \<and>
   Write (Some file_bool2) = (buffer_bool1, None) \<and>
   Write (Some file_bool2) \<noteq> (buffer_bool2, None) \<and>
   ReadS buffer_bool1 = Inr (file_bool2, []) \<and>
   list_all (\<lambda>i. buffer_bool1 ! i = 0 \<or> buffer_bool1 ! i = 1) [52, 53, 54, 55, 64, 65]"
proof -
  have h2: "ReadS buffer_bool2 = Inr (file_bool2, [])"
    by code_simp
  have h1: "ReadS buffer_bool1 = Inr (file_bool2, [])"
    by code_simp
  have n: "normalise_bools (file_bool_mask file_bool2) buffer_bool2 = buffer_bool1"
    by code_simp
  have l: "length buffer_bool2 = length (file_bool_mask file_bool2)"
    by code_simp
  have k: "filter (\<lambda>i. file_bool_mask file_bool2 ! i) [0 ..< length buffer_bool2]
      = [52, 53, 54, 55, 64, 65]"
    by code_simp
  have b: "list_all (\<lambda>i. buffer_bool1 ! i = 0 \<or> buffer_bool1 ! i = 1) [52, 53, 54, 55, 64, 65]"
    by code_simp
  have "list_all (\<lambda>i. file_bool_mask file_bool2 ! i \<longrightarrow>
      buffer_bool1 ! i = 0 \<or> buffer_bool1 ! i = 1) [0 ..< length buffer_bool1]"
    by code_simp
  then have all1: "\<forall>i < length buffer_bool1. file_bool_mask file_bool2 ! i \<longrightarrow>
      buffer_bool1 ! i = 0 \<or> buffer_bool1 ! i = 1"
    by (simp add: list_all_iff)
  have m2: "52 < length buffer_bool2" "file_bool_mask file_bool2 ! 52"
    "buffer_bool2 ! 52 \<noteq> 0" "buffer_bool2 ! 52 \<noteq> 1"
    by code_simp+
  from Read_Write_roundtrip [OF h1] all1
  have w: "Write (Some file_bool2) = (buffer_bool1, None)"
    by blast
  from Read_Write_roundtrip [OF h2] m2
  have w2: "Write (Some file_bool2) \<noteq> (buffer_bool2, None)"
    by blast
  from h2 l k n w w2 h1 b show ?thesis
    by blast
qed

text \<open>
  C1 as stated fails: a buffer whose \<^verbatim>\<open>has_max_ctagg\<close> byte is \<open>2\<close> decodes without
  error and is re-encoded with that byte set to \<open>1\<close>; a buffer with one byte after the
  (empty) entry list decodes without error and is re-encoded without that byte.
\<close>

theorem Read_Write_not_identical:
  "Read buffer_bool2 = Inr file_bool2 \<and>
   Write (Some file_bool2) = (buffer_bool1, None) \<and>
   buffer_bool1 \<noteq> buffer_bool2 \<and>
   Read [48, 68, 72, 84, 1, 0, 0, 0, 0, 0, 0, 0, 255]
     = Inr \<lparr>Magic = ''0DHT'', Textures = [], Version = 1\<rparr> \<and>
   Write (Some \<lparr>Magic = ''0DHT'', Textures = [], Version = 1\<rparr>)
     = ([48, 68, 72, 84, 1, 0, 0, 0, 0, 0, 0, 0], None)"
  by code_simp

subsection \<open>Encoding, then decoding\<close>

lemma readFull_append: "length t = n \<Longrightarrow> readFull n (t @ rest) = Inr (t, rest)"
  by (simp add: readFull_def)

lemma readU8_write: "readU8 (writeU8 v @ rest) = Inr (v, rest)"
  by (simp add: readU8_def writeU8_def readFull_def)

lemma readBool8_write: "readBool8 (writeBool8 v @ rest) = Inr (v, rest)"
  by (simp add: readBool8_def writeBool8_def readU8_write)

lemma readU16_write: "readU16 (writeU16 v @ rest) = Inr (v, rest)"
  by (simp add: readU16_def writeU16_def putU16_def readFull_def getU16_putU16)

lemma readU32_write: "readU32 (writeU32 v @ rest) = Inr (v, rest)"
  by (simp add: readU32_def writeU32_def putU32_def readFull_def getU32_putU32)

lemma readF32_write: "readF32 (writeF32 v @ rest) = Inr (v, rest)"
  by (simp add: readF32_def writeF32_def readU32_write)

lemma read4B_write: "read4B (write4B v @ rest) = Inr (v, rest)"
  by (cases v) (simp add: read4B_def write4B_def readFull_def)

lemma read4F_write: "read4F (write4F v @ rest) = Inr (v, rest)"
  by (cases v) (simp add: read4F_def write4F_def bindD_def returnD_def readF32_write)

lemma byte_of_char_zero: "byte_of_char c = 0 \<longleftrightarrow> c = CHR 0x00"
proof
  assume "byte_of_char c = 0"
  then have "byte_of_char c = byte_of_char (CHR 0x00)"
    by (simp add: byte_of_char_def)
  then have "char_of_byte (byte_of_char c) = char_of_byte (byte_of_char (CHR 0x00))"
    by (rule arg_cong)
  then show "c = CHR 0x00"
    by (simp only: char_of_byte_of_char)
next
  assume "c = CHR 0x00"
  then show "byte_of_char c = 0"
    by (simp add: byte_of_char_def)
qed

lemma readASCIIZ_loop_write:
  "CHR 0x00 \<notin> set s \<Longrightarrow>
     readASCIIZ_loop buf (bytes_of_string s @ 0 # rest)
       = Inr (string_of_bytes buf @ s, rest)"
proof (induction s arbitrary: buf)
  case Nil
  then show ?case by (simp add: bytes_of_string_def)
next
  case (Cons c s)
  then have c: "byte_of_char c \<noteq> 0" by (auto simp: byte_of_char_zero)
  have "readASCIIZ_loop buf (bytes_of_string (c # s) @ 0 # rest)
        = readASCIIZ_loop (buf @ [byte_of_char c]) (bytes_of_string s @ 0 # rest)"
    using c by (simp add: bytes_of_string_def)
  also have "\<dots> = Inr (string_of_bytes (buf @ [byte_of_char c]) @ s, rest)"
    using Cons by simp
  finally show ?case
    by (simp add: string_of_bytes_def char_of_byte_of_char)
qed

lemma readASCIIZ_write:
  "CHR 0x00 \<notin> set s \<Longrightarrow> readASCIIZ (writeASCIIZ s @ rest) = Inr (s, rest)"
  using readASCIIZ_loop_write [of s "[]" rest]
  by (simp add: readASCIIZ_def writeASCIIZ_def writeU8_def string_of_bytes_def)

lemma readMipMap_write: "readMipMap (writeMipMap m @ rest) = Inr (m, rest)"
  by (simp add: readMipMap_def writeMipMap_def bindD_def ctx_def returnD_def
      readU16_write readU8_write readU32_write)

lemma readMipMaps_write:
  "readMipMaps i (i + length ms) acc (concat (map writeMipMap ms) @ rest)
     = Inr (acc @ ms, rest)"
proof (induction ms arbitrary: i acc)
  case Nil
  then show ?case by (simp add: readMipMaps.simps)
next
  case (Cons m ms)
  have "readMipMaps i (i + length (m # ms)) acc (concat (map writeMipMap (m # ms)) @ rest)
        = readMipMaps (Suc i) (Suc i + length ms) (acc @ [m]) (concat (map writeMipMap ms) @ rest)"
    by (subst readMipMaps.simps) (simp add: readMipMap_write)
  then show ?case using Cons [of "Suc i" "acc @ [m]"] by simp
qed

lemma readTextureEntry_write:
  assumes "CHR 0x00 \<notin> set (PAAFile e)" and "length (MipMaps e) = unat (MipMapCountCopy e)"
  shows "readTextureEntry (writeTextureEntry e @ rest) = Inr (e, rest)"
proof -
  have mips: "readMipMaps 0 (unat (MipMapCountCopy e)) []
      (concat (map writeMipMap (MipMaps e)) @ r) = Inr (MipMaps e, r)" for r
    using readMipMaps_write [of 0 "MipMaps e" "[]" r] assms(2) by simp
  show ?thesis
    using assms(1)
    by (simp add: readTextureEntry_def writeTextureEntry_def entryHead_def bindD_def ctx_def
        returnD_def readU32_write read4F_write read4B_write readBool8_write readASCIIZ_write
        mips)
qed

lemma entryIssues_counts_differ:
  "MipMapCount e \<noteq> MipMapCountCopy e \<Longrightarrow>
     MipCountsDiffer i (MipMapCount e) (MipMapCountCopy e) \<in> set (entryIssues e i)"
  by (simp add: entryIssues_def Let_def)

text \<open>
  C9. Every entry that decodes has exactly \<open>mip_count_copy\<close> mip descriptors. The
  \<open>mip_count\<close> field is stored as read and plays no part in parsing: the encoding of an
  entry whose descriptor list has \<open>mip_count_copy\<close> elements decodes to that entry
  whatever value \<open>c\<close> its \<open>mip_count\<close> field holds, and when \<open>c\<close> differs from
  \<open>mip_count_copy\<close> it is the validator that reports it.
\<close>

theorem readTextureEntry_mip_count_copy:
  "(readTextureEntry bs = Inr (e', rest') \<longrightarrow>
      length (MipMaps e') = unat (MipMapCountCopy e')) \<and>
   (CHR 0x00 \<notin> set (PAAFile e) \<and> length (MipMaps e) = unat (MipMapCountCopy e) \<longrightarrow>
      readTextureEntry (writeTextureEntry (e\<lparr>MipMapCount := c\<rparr>) @ rest)
        = Inr (e\<lparr>MipMapCount := c\<rparr>, rest) \<and>
      (c \<noteq> MipMapCountCopy e \<longrightarrow>
         ValidateEntry (Some (e\<lparr>MipMapCount := c\<rparr>)) i \<noteq> None))"
proof (intro conjI impI)
  assume "readTextureEntry bs = Inr (e', rest')"
  then show "length (MipMaps e') = unat (MipMapCountCopy e')"
    using readTextureEntry_Inr by blast
next
  assume a: "CHR 0x00 \<notin> set (PAAFile e) \<and> length (MipMaps e) = unat (MipMapCountCopy e)"
  then show "readTextureEntry (writeTextureEntry (e\<lparr>MipMapCount := c\<rparr>) @ rest)
        = Inr (e\<lparr>MipMapCount := c\<rparr>, rest)"
    by (intro readTextureEntry_write) simp_all
next
  assume c: "c \<noteq> MipMapCountCopy e"
  have "MipCountsDiffer i c (MipMapCountCopy e) \<in> set (entryIssues (e\<lparr>MipMapCount := c\<rparr>) i)"
    using entryIssues_counts_differ [of "e\<lparr>MipMapCount := c\<rparr>" i] c by simp
  then have "entryIssues (e\<lparr>MipMapCount := c\<rparr>) i \<noteq> []"
    by auto
  then show "ValidateEntry (Some (e\<lparr>MipMapCount := c\<rparr>)) i \<noteq> None"
    by (simp add: ValidateEntry_def Let_def)
qed

theorem readTextureEntry_mip_count_copy_witness:
  "readTextureEntry (writeTextureEntry sample_entry) = Inr (sample_entry, []) \<and>
   length (MipMaps sample_entry) = unat (MipMapCountCopy sample_entry) \<and>
   CHR 0x00 \<notin> set (PAAFile sample_entry) \<and>
   (5 :: u32) \<noteq> MipMapCountCopy sample_entry \<and>
   readTextureEntry (writeTextureEntry (sample_entry\<lparr>MipMapCount := 5\<rparr>) @ [9])
     = Inr (sample_entry\<lparr>MipMapCount := 5\<rparr>, [9]) \<and>
   ValidateEntry (Some (sample_entry\<lparr>MipMapCount := 5\<rparr>)) 0 \<noteq> None"
proof -
  have r: "readTextureEntry (writeTextureEntry sample_entry) = Inr (sample_entry, [])"
    by code_simp
  have h1: "CHR 0x00 \<notin> set (PAAFile sample_entry)"
    by (simp add: sample_entry_def)
  have h2: "length (MipMaps sample_entry) = unat (MipMapCountCopy sample_entry)"
    by (simp add: sample_entry_def)
  have h3: "(5 :: u32) \<noteq> MipMapCountCopy sample_entry"
    by (simp add: sample_entry_def)
  show ?thesis
    using r h1 h2 h3
      readTextureEntry_mip_count_copy [of "writeTextureEntry sample_entry" sample_entry "[]"
        sample_entry 5 "[9]" 0]
    by simp
qed

subsection \<open>The count fields the encoder writes\<close>

declare len_writeU32 [simp]
  len_putU32 [simp]
  len_writeBool8 [simp]
  len_write4F [simp]
  len_write4B [simp]
  len_entryHead [simp]
  len_writeASCIIZ [simp]
  len_writeMipMap [simp]
  len_concat_mips [simp]

lemma take_drop_app: "length a = n \<Longrightarrow> length b = k \<Longrightarrow> take k (drop n (a @ b @ c)) = b"
  by simp

lemma entry_mip_count_field:
  "take 4 (drop 44 (writeTextureEntry e)) = putU32 (MipMapCount e)"
  unfolding writeTextureEntry_def
  using take_drop_app [of "entryHead e" 44 "writeU32 (MipMapCount e)" 4]
  by (simp add: writeU32_def)

lemma entry_mip_count_copy_field:
  "take 4 (drop (59 + length (PAAFile e)) (writeTextureEntry e)) = putU32 (MipMapCountCopy e)"
proof -
  let ?a = "entryHead e @ writeU32 (MipMapCount e) @ writeU32 (PaxFormat e) @
     writeBool8 (LittleEndian e) @ writeBool8 (IsPAA e) @
     writeASCIIZ (PAAFile e) @ writeU32 (PaxSuffixType e)"
  have w: "writeTextureEntry e = ?a @ writeU32 (MipMapCountCopy e) @
      (concat (map writeMipMap (MipMaps e)) @ writeU32 (PaxFileSize e))"
    by (simp add: writeTextureEntry_def)
  have l: "length ?a = 59 + length (PAAFile e)"
    by simp
  show ?thesis
    unfolding w using take_drop_app [OF l, of "writeU32 (MipMapCountCopy e)" 4]
    by (simp add: writeU32_def)
qed

lemma entry_mips_field:
  "take (12 * length (MipMaps e)) (drop (63 + length (PAAFile e)) (writeTextureEntry e))
     = concat (map writeMipMap (MipMaps e))"
proof -
  let ?a = "entryHead e @ writeU32 (MipMapCount e) @ writeU32 (PaxFormat e) @
     writeBool8 (LittleEndian e) @ writeBool8 (IsPAA e) @
     writeASCIIZ (PAAFile e) @ writeU32 (PaxSuffixType e) @ writeU32 (MipMapCountCopy e)"
  have w: "writeTextureEntry e = ?a @ concat (map writeMipMap (MipMaps e)) @
      writeU32 (PaxFileSize e)"
    by (simp add: writeTextureEntry_def)
  have l: "length ?a = 63 + length (PAAFile e)"
    by simp
  have k: "length (concat (map writeMipMap (MipMaps e))) = 12 * length (MipMaps e)"
    by simp
  show ?thesis
    unfolding w using take_drop_app [OF l k] by simp
qed

lemma entry_length:
  "length (writeTextureEntry e) = 67 + length (PAAFile e) + 12 * length (MipMaps e)"
  by (simp add: writeTextureEntry_def)

lemma Write_ok_shape:
  assumes "Write (Some f) = (out, None)"
  shows "int (length (Textures f)) \<le> MaxUint32 \<and>
         take 4 (drop 8 out) = putU32 (word_of_nat (length (Textures f))) \<and>
         drop 12 out = concat (map writeTextureEntry (Textures f))"
proof -
  let ?magic = "if Magic f = [] then FileMagic else Magic f"
  from assms have m: "length ?magic = 4"
    by (auto simp: Write_def Let_def split: if_splits)
  from assms have n: "int (length (Textures f)) \<le> MaxUint32"
    by (auto simp: Write_def Let_def writeU32FromInt_def intToU32Strict_def
        split: if_splits sum.splits)
  have cnt: "writeU32FromInt (int (length (Textures f)))
      = Inr (writeU32 (word_of_nat (length (Textures f))))"
    using n by (simp add: writeU32FromInt_def intToU32Strict_def)
  from assms m cnt have out: "out = bytes_of_string ?magic @ writeU32 SupportedVersion @
      writeU32 (word_of_nat (length (Textures f))) @ concat (map writeTextureEntry (Textures f))"
    by (auto simp: Write_def Let_def split: if_splits)
  have lm: "length (bytes_of_string ?magic) = 4"
    using m by (simp add: bytes_of_string_def)
  have l8: "length (bytes_of_string ?magic @ writeU32 SupportedVersion) = 8"
    using lm by simp
  have a: "take 4 (drop 8 out) = putU32 (word_of_nat (length (Textures f)))"
    unfolding out
    using take_drop_app [OF l8, of "writeU32 (word_of_nat (length (Textures f)))" 4
        "concat (map writeTextureEntry (Textures f))"]
    by (simp add: writeU32_def)
  have b: "drop 12 out = concat (map writeTextureEntry (Textures f))"
    unfolding out using lm by simp
  from n a b show ?thesis by simp
qed

lemma Write_too_many:
  assumes "int (length (Textures f)) > MaxUint32"
    and "Magic f = [] \<or> length (Magic f) = 4"
    and "Version f = 0 \<or> Version f = SupportedVersion"
  shows "Write (Some f) =
           (bytes_of_string (if Magic f = [] then FileMagic else Magic f) @
              writeU32 SupportedVersion,
            Some (Wrap ''write texture count''
              (ErrTooManyTextures (int (length (Textures f))))))"
  using assms
  by (auto simp add: Write_def Let_def FileMagic_def writeU32FromInt_def
      intToU32Strict_def)

text \<open>
  C2 (as amended). The texture count on disk is the length of \<open>Textures\<close>: a successful
  \<open>Write\<close> holds it in bytes 8 to 11, followed by the entries, and a length above
  \<open>MaxUint32\<close> makes \<open>Write\<close> stop after magic and version with \<open>ErrTooManyTextures\<close>
  (no truncation). The two mip counts of an entry are not derived from the length of
  \<open>MipMaps\<close>: bytes 44 to 47 of an encoded entry are its stored \<open>MipMapCount\<close>, the four
  bytes after the suffix type are its stored \<open>MipMapCountCopy\<close>, and the descriptors
  written after them are those of the list, twelve bytes each.
\<close>

theorem Write_count_fields:
  "(Write (Some f) = (out, None) \<longrightarrow>
      int (length (Textures f)) \<le> MaxUint32 \<and>
      take 4 (drop 8 out) = putU32 (word_of_nat (length (Textures f))) \<and>
      drop 12 out = concat (map writeTextureEntry (Textures f))) \<and>
   (int (length (Textures f)) > MaxUint32 \<and>
    (Magic f = [] \<or> length (Magic f) = 4) \<and>
    (Version f = 0 \<or> Version f = SupportedVersion) \<longrightarrow>
      Write (Some f) =
        (bytes_of_string (if Magic f = [] then FileMagic else Magic f) @
           writeU32 SupportedVersion,
         Some (Wrap ''write texture count''
           (ErrTooManyTextures (int (length (Textures f))))))) \<and>
   take 4 (drop 44 (writeTextureEntry e)) = putU32 (MipMapCount e) \<and>
   take 4 (drop (59 + length (PAAFile e)) (writeTextureEntry e)) = putU32 (MipMapCountCopy e) \<and>
   take (12 * length (MipMaps e)) (drop (63 + length (PAAFile e)) (writeTextureEntry e))
     = concat (map writeMipMap (MipMaps e)) \<and>
   length (writeTextureEntry e) = 67 + length (PAAFile e) + 12 * length (MipMaps e)"
  using Write_ok_shape [of f out] Write_too_many [of f]
    entry_mip_count_field [of e] entry_mip_count_copy_field [of e] entry_mips_field [of e]
    entry_length [of e]
  by blast

theorem Write_count_fields_witness:
  "Write (Some file_bool2) = (buffer_bool1, None) \<and>
   int (length (Textures file_bool2)) \<le> MaxUint32 \<and>
   take 4 (drop 8 buffer_bool1) = putU32 (word_of_nat (length (Textures file_bool2))) \<and>
   drop 12 buffer_bool1 = concat (map writeTextureEntry (Textures file_bool2)) \<and>
   Write (Some \<lparr>Magic = ''0DHT'', Textures = replicate 4294967296 sample_entry, Version = 1\<rparr>)
     = ([48, 68, 72, 84, 1, 0, 0, 0],
        Some (Wrap ''write texture count'' (ErrTooManyTextures 4294967296))) \<and>
   take 4 (drop 44 (writeTextureEntry sample_entry)) = putU32 (MipMapCount sample_entry)"
proof -
  let ?big = "\<lparr>Magic = ''0DHT'', Textures = replicate 4294967296 sample_entry, Version = 1\<rparr>"
  have w: "Write (Some file_bool2) = (buffer_bool1, None)"
    by code_simp
  have h: "int (length (Textures ?big)) > MaxUint32 \<and>
      (Magic ?big = [] \<or> length (Magic ?big) = 4) \<and>
      (Version ?big = 0 \<or> Version ?big = SupportedVersion)"
    by (simp add: MaxUint32_def SupportedVersion_def)
  have b: "bytes_of_string ''0DHT'' @ writeU32 1 = [48, 68, 72, 84, 1, 0, 0, 0]"
    by (simp add: bytes_of_string_def byte_of_char_def writeU32_def putU32_def)
  have t1: "int (length (Textures file_bool2)) \<le> MaxUint32 \<and>
      take 4 (drop 8 buffer_bool1) = putU32 (word_of_nat (length (Textures file_bool2))) \<and>
      drop 12 buffer_bool1 = concat (map writeTextureEntry (Textures file_bool2))"
    using w Write_count_fields [of file_bool2 buffer_bool1 sample_entry] by blast
  have t2: "Write (Some ?big) = ([48, 68, 72, 84, 1, 0, 0, 0],
        Some (Wrap ''write texture count'' (ErrTooManyTextures 4294967296)))"
    using h b Write_count_fields [of ?big "[]" sample_entry]
    by (simp add: FileMagic_def SupportedVersion_def)
  have t3: "take 4 (drop 44 (writeTextureEntry sample_entry)) = putU32 (MipMapCount sample_entry)"
    using Write_count_fields [of file_bool2 buffer_bool1 sample_entry] by blast
  from w t1 t2 t3 show ?thesis
    by blast
qed

text \<open>
  C2 as stated fails for the mip counts: an entry with no mip descriptors whose stored
  counts are 5 and 7 is written with 5 and 7 on disk, not with the length 0.
\<close>

theorem Write_mip_counts_are_stored_fields:
  "MipMaps (sample_entry\<lparr>MipMapCount := 5, MipMapCountCopy := 7\<rparr>) = [] \<and>
   Write (Some \<lparr>Magic = ''0DHT'',
                 Textures = [sample_entry\<lparr>MipMapCount := 5, MipMapCountCopy := 7\<rparr>],
                 Version = 1\<rparr>)
     = ([48, 68, 72, 84, 1, 0, 0, 0, 1, 0, 0, 0,
         1, 0, 0, 0, 0, 0, 0, 0,
         0, 0, 0, 0, 0, 0, 0, 0, 0, 0, 0, 0, 0, 0, 0, 0,
         0, 0, 0, 0, 255, 255, 255, 255,
         0, 0, 0, 0, 255, 255, 255, 255,
         1, 0, 0, 0,
         5, 0, 0, 0, 5, 0, 0, 0,
         1, 1,
         97, 0,
         0, 0, 0, 0,
         7, 0, 0, 0,
         7, 0, 0, 0], None)"
  by code_simp

subsection \<open>The validator reports every violation\<close>

lemma set_if_single: "set (if c then [a] else []) = (if c then {a} else {})"
  by simp

lemma mipIssues_set:
  "i \<le> length all \<Longrightarrow> (0 < i \<Longrightarrow> prev = DataOffset (all ! (i - 1))) \<Longrightarrow>
     set (mipIssues idx fmt i prev (drop i all))
       = (\<Union>j \<in> {i..<length all}. mip_violations idx fmt all j)"
proof (induction "length all - i" arbitrary: i prev)
  case 0
  then show ?case by simp
next
  case (Suc n)
  then have lt: "i < length all" by simp
  have d: "drop i all = all ! i # drop (Suc i) all"
    using lt by (simp add: Cons_nth_drop_Suc)
  have IH: "set (mipIssues idx fmt (Suc i) (DataOffset (all ! i)) (drop (Suc i) all))
      = (\<Union>j \<in> {Suc i..<length all}. mip_violations idx fmt all j)"
    using Suc.hyps(1) [of "Suc i" "DataOffset (all ! i)"] Suc.hyps(2) lt by simp
  have split: "{i..<length all} = insert i {Suc i..<length all}"
    using lt by auto
  define H where "H = (if Width (all ! i) = 0 \<or> Height (all ! i) = 0
        then [ZeroDimension idx i (Width (all ! i)) (Height (all ! i))] else []) @
     (if AlwaysZero (all ! i) \<noteq> 0 then [AlwaysZeroBad idx i (AlwaysZero (all ! i))] else []) @
     (if AlwaysThree (all ! i) \<noteq> 3 then [AlwaysThreeBad idx i (AlwaysThree (all ! i))] else []) @
     (if fmt \<le> MaxUint8 \<and> ucast (MipPaxFormat (all ! i)) \<noteq> fmt
      then [MipFormatBad idx i (MipPaxFormat (all ! i)) fmt] else []) @
     (if i > 0 \<and> DataOffset (all ! i) < prev
      then [OffsetDecreasing idx i (DataOffset (all ! i)) prev] else [])"
  have here: "set H = mip_violations idx fmt all i"
  proof (cases "0 < i")
    case True
    then have "prev = DataOffset (all ! (i - 1))"
      using Suc.prems(2) by simp
    then show ?thesis
      unfolding H_def mip_violations_def Let_def
      by (simp only: set_append set_if_single MaxUint8_def Un_assoc simp_thms if_True list.set)
  next
    case False
    then show ?thesis
      unfolding H_def mip_violations_def Let_def
      by (simp only: set_append set_if_single MaxUint8_def Un_assoc simp_thms if_False list.set)
  qed
  have mi: "mipIssues idx fmt i prev (all ! i # drop (Suc i) all)
      = H @ mipIssues idx fmt (Suc i) (DataOffset (all ! i)) (drop (Suc i) all)"
    by (simp add: H_def)
  show ?case
    unfolding d split by (simp only: mi set_append IH here UN_insert)
qed


lemma intToU32Strict_nat:
  "intToU32Strict (int n) = (if n < 2 ^ 32 then Inr (word_of_nat n) else Inl (ErrOutOfU32Range (int n)))"
  by (auto simp add: intToU32Strict_def MaxUint32_def)

lemma entryIssues_set: "set (entryIssues e idx) = entry_violations idx e"
proof -
  have m: "set (mipIssues idx (PaxFormat e) 0 0 (MipMaps e))
      = (\<Union>j \<in> {..<length (MipMaps e)}. mip_violations idx (PaxFormat e) (MipMaps e) j)"
    using mipIssues_set [of 0 "MipMaps e" 0 idx "PaxFormat e"] by (simp add: lessThan_atLeast0)
  show ?thesis
  proof (cases "length (MipMaps e) < 2 ^ 32")
    case True
    then have c: "intToU32Strict (int (length (MipMaps e))) = Inr (word_of_nat (length (MipMaps e)))"
      by (simp add: intToU32Strict_nat)
    show ?thesis
      unfolding entryIssues_def entry_violations_def Let_def c
      by (simp only: set_append set_if_single m sum.case True if_True MaxUint8_def
          list.set Un_empty_right Un_empty_left Un_assoc)
  next
    case False
    then have c: "intToU32Strict (int (length (MipMaps e)))
        = Inl (ErrOutOfU32Range (int (length (MipMaps e))))"
      by (simp add: intToU32Strict_nat)
    show ?thesis
      unfolding entryIssues_def entry_violations_def Let_def c
      by (simp only: set_append set_if_single m sum.case False if_False MaxUint8_def
          list.set Un_empty_right Un_empty_left Un_assoc)
  qed
qed

lemma entry_violations_cases:
  assumes "x \<in> entry_violations idx e"
  shows "x = PathEmpty idx
     \<or> x = FormatRange idx (PaxFormat e)
     \<or> x = MipLenRange idx (length (MipMaps e))
     \<or> (\<exists>l. x = MipCountLen idx (MipMapCount e) l)
     \<or> (\<exists>l. x = MipCountCopyLen idx (MipMapCountCopy e) l)
     \<or> x = MipCountsDiffer idx (MipMapCount e) (MipMapCountCopy e)
     \<or> x \<in> set (mipIssues idx (PaxFormat e) 0 0 (MipMaps e))"
proof -
  have m: "set (mipIssues idx (PaxFormat e) 0 0 (MipMaps e))
      = (\<Union>j \<in> {..<length (MipMaps e)}. mip_violations idx (PaxFormat e) (MipMaps e) j)"
    using mipIssues_set [of 0 "MipMaps e" 0 idx "PaxFormat e"] by (simp add: lessThan_atLeast0)
  from assms have
    "x \<in> (if PAAFile e = [] then {PathEmpty idx} else {})
     \<or> x \<in> (if PaxFormat e > 255 then {FormatRange idx (PaxFormat e)} else {})
     \<or> x \<in> (if length (MipMaps e) < 2 ^ 32 then {} else {MipLenRange idx (length (MipMaps e))})
     \<or> x \<in> (if MipMapCount e \<noteq> (if length (MipMaps e) < 2 ^ 32 then word_of_nat (length (MipMaps e)) else 0)
          then {MipCountLen idx (MipMapCount e) (if length (MipMaps e) < 2 ^ 32 then word_of_nat (length (MipMaps e)) else 0)} else {})
     \<or> x \<in> (if MipMapCountCopy e \<noteq> (if length (MipMaps e) < 2 ^ 32 then word_of_nat (length (MipMaps e)) else 0)
          then {MipCountCopyLen idx (MipMapCountCopy e) (if length (MipMaps e) < 2 ^ 32 then word_of_nat (length (MipMaps e)) else 0)} else {})
     \<or> x \<in> (if MipMapCount e \<noteq> MipMapCountCopy e
          then {MipCountsDiffer idx (MipMapCount e) (MipMapCountCopy e)} else {})
     \<or> x \<in> set (mipIssues idx (PaxFormat e) 0 0 (MipMaps e))"
    unfolding entry_violations_def Let_def m
    by (simp only: Un_iff disj_assoc)
  then show ?thesis
    by (elim disjE) (simp_all split: if_splits)
qed

lemma mipIssues_cases:
  "x \<in> set (mipIssues idx fmt i prev ms) \<Longrightarrow>
     (\<exists>j w h. x = ZeroDimension idx j w h) \<or> (\<exists>j z. x = AlwaysZeroBad idx j z) \<or>
     (\<exists>j t. x = AlwaysThreeBad idx j t) \<or> (\<exists>j p. x = MipFormatBad idx j p fmt) \<or>
     (\<exists>j a b. x = OffsetDecreasing idx j a b)"
proof (induction ms arbitrary: i prev)
  case Nil
  then show ?case by simp
next
  case (Cons m ms)
  from Cons.prems have
    "x \<in> (if Width m = 0 \<or> Height m = 0 then {ZeroDimension idx i (Width m) (Height m)} else {})
     \<or> x \<in> (if AlwaysZero m \<noteq> 0 then {AlwaysZeroBad idx i (AlwaysZero m)} else {})
     \<or> x \<in> (if AlwaysThree m \<noteq> 3 then {AlwaysThreeBad idx i (AlwaysThree m)} else {})
     \<or> x \<in> (if fmt \<le> MaxUint8 \<and> ucast (MipPaxFormat m) \<noteq> fmt
          then {MipFormatBad idx i (MipPaxFormat m) fmt} else {})
     \<or> x \<in> (if i > 0 \<and> DataOffset m < prev
          then {OffsetDecreasing idx i (DataOffset m) prev} else {})
     \<or> x \<in> set (mipIssues idx fmt (Suc i) (DataOffset m) ms)"
    by (simp only: mipIssues.simps set_append set_if_single Un_iff)
  then show ?case
    using Cons.IH by (elim disjE) (auto split: if_splits)
qed

lemma mipIssues_leaf: "x \<in> set (mipIssues idx fmt i prev ms) \<Longrightarrow> leaves x = [x]"
  using mipIssues_cases [of x idx fmt i prev ms] by auto

lemma entryIssues_leaf: "x \<in> set (entryIssues e idx) \<Longrightarrow> leaves x = [x]"
proof -
  assume "x \<in> set (entryIssues e idx)"
  then have "x \<in> entry_violations idx e"
    by (simp only: entryIssues_set)
  from entry_violations_cases [OF this] show "leaves x = [x]"
    using mipIssues_leaf by (elim disjE exE) auto
qed

lemma entry_violations_no_header:
  "MagicMismatch m \<notin> entry_violations i e" "VersionMismatch v \<notin> entry_violations i e"
  using entry_violations_cases [of "MagicMismatch m" i e]
    entry_violations_cases [of "VersionMismatch v" i e]
    mipIssues_cases [of "MagicMismatch m" i "PaxFormat e" 0 0 "MipMaps e"]
    mipIssues_cases [of "VersionMismatch v" i "PaxFormat e" 0 0 "MipMaps e"]
  by auto

lemma concat_leaves_id: "(\<And>x. x \<in> set xs \<Longrightarrow> leaves x = [x]) \<Longrightarrow> concat (map leaves xs) = xs"
  by (induction xs) auto

lemma leaves_entry: "concat (map leaves (entryIssues e idx)) = entryIssues e idx"
  by (rule concat_leaves_id) (rule entryIssues_leaf)

lemma ValidateEntry_leaves:
  "concat (map leaves (case ValidateEntry (Some e) idx of None \<Rightarrow> [] | Some err \<Rightarrow> [err]))
     = entryIssues e idx"
  by (simp add: ValidateEntry_def Let_def leaves_entry)

lemma entriesIssues_leaves:
  "set (concat (map leaves (entriesIssues i es)))
     = (\<Union>k \<in> {..<length es}. entry_violations (int (i + k)) (es ! k))"
proof (induction es arbitrary: i)
  case Nil
  then show ?case by simp
next
  case (Cons e es)
  have s: "{..<length (e # es)} = insert 0 (Suc ` {..<length es})"
    by (auto simp: lessThan_Suc_eq_insert_0)
  have "set (concat (map leaves (entriesIssues i (e # es))))
      = set (entryIssues e (int i)) \<union> set (concat (map leaves (entriesIssues (Suc i) es)))"
    using ValidateEntry_leaves [of e "int i"] by simp
  also have "\<dots> = entry_violations (int i) e \<union>
      (\<Union>k \<in> {..<length es}. entry_violations (int (Suc i + k)) (es ! k))"
    by (simp only: entryIssues_set Cons.IH)
  finally have "set (concat (map leaves (entriesIssues i (e # es))))
      = entry_violations (int i) e \<union>
        (\<Union>k \<in> {..<length es}. entry_violations (int (Suc i + k)) (es ! k))" .
  moreover have "(\<Union>k \<in> {..<length (e # es)}. entry_violations (int (i + k)) ((e # es) ! k))
      = entry_violations (int i) e \<union>
        (\<Union>k \<in> {..<length es}. entry_violations (int (Suc i + k)) (es ! k))"
    unfolding s by (simp add: image_image ac_simps)
  ultimately show ?case
    by (simp only:)
qed

lemma fileIssues_leaves: "set (concat (map leaves (fileIssues f))) = file_violations f"
proof -
  have c: "(int (length (Textures f)) > MaxUint32) = (\<not> length (Textures f) < 2 ^ 32)"
    by (auto simp: MaxUint32_def)
  have l: "concat (map leaves (if b then [x] else [])) = (if b then leaves x else [])" for b x
    by simp
  show ?thesis
    unfolding fileIssues_def file_violations_def c
    using entriesIssues_leaves [of 0 "Textures f"]
    by (simp add: FileMagic_def SupportedVersion_def)
qed

lemma entriesIssues_nonempty_leaves:
  "entriesIssues i es \<noteq> [] \<Longrightarrow> concat (map leaves (entriesIssues i es)) \<noteq> []"
proof (induction es arbitrary: i)
  case Nil
  then show ?case by simp
next
  case (Cons e es)
  show ?case
  proof (cases "entryIssues e (int i) = []")
    case True
    then have "entriesIssues i (e # es) = entriesIssues (Suc i) es"
      by (simp add: ValidateEntry_def)
    with Cons show ?thesis by simp
  next
    case False
    then show ?thesis
      using ValidateEntry_leaves [of e "int i"] by auto
  qed
qed

lemma fileIssues_empty_iff: "fileIssues f = [] \<longleftrightarrow> file_violations f = {}"
proof
  assume "fileIssues f = []"
  then show "file_violations f = {}"
    using fileIssues_leaves [of f] by simp
next
  assume v: "file_violations f = {}"
  then have c: "concat (map leaves (fileIssues f)) = []"
    using fileIssues_leaves [of f] by simp
  then have "entriesIssues 0 (Textures f) = []"
    using entriesIssues_nonempty_leaves [of 0 "Textures f"]
    by (auto simp: fileIssues_def split: if_splits)
  moreover from c have "\<not> (Magic f \<noteq> [] \<and> Magic f \<noteq> FileMagic)"
    "\<not> (Version f \<noteq> 0 \<and> Version f \<noteq> SupportedVersion)"
    "\<not> int (length (Textures f)) > MaxUint32"
    by (auto simp: fileIssues_def split: if_splits)
  ultimately show "fileIssues f = []"
    by (simp add: fileIssues_def)
qed


lemma magic_violation_iff:
  "MagicMismatch m \<in> file_violations f \<longleftrightarrow> m = Magic f \<and> Magic f \<noteq> [] \<and> Magic f \<noteq> ''0DHT''"
  unfolding file_violations_def
  using entry_violations_no_header(1) by (auto split: if_splits)

lemma version_violation_iff:
  "VersionMismatch v \<in> file_violations f \<longleftrightarrow> v = Version f \<and> Version f \<noteq> 0 \<and> Version f \<noteq> 1"
  unfolding file_violations_def
  using entry_violations_no_header(2) by (auto split: if_splits)

lemma ValidateFile_cases:
  "ValidateFile (Some f) = (if file_violations f = {} then None else Some (Join (fileIssues f)))"
  using fileIssues_empty_iff [of f] by (simp add: ValidateFile_def Let_def)

lemma ValidateEntry_cases:
  "ValidateEntry (Some e) i = (if entry_violations i e = {} then None else Some (Join (entryIssues e i)))"
  using entryIssues_set [of e i] by (auto simp add: ValidateEntry_def Let_def)

text \<open>
  C7. The validator returns success exactly when the file violates no invariant;
  otherwise it returns one aggregate (\<open>Join\<close>) whose single violations are exactly the
  violations of the file, so no check is skipped after an earlier one has failed. The same
  holds for one entry. A magic violation is reported only for a non-empty \<open>Magic\<close> and a
  version violation only for a non-zero \<open>Version\<close>.
\<close>

theorem Validate_collects_all:
  "(ValidateFile (Some f) = None \<longleftrightarrow> file_violations f = {}) \<and>
   (file_violations f \<noteq> {} \<longrightarrow>
      (\<exists>issues. ValidateFile (Some f) = Some (Join issues) \<and>
         set (leaves (Join issues)) = file_violations f)) \<and>
   (ValidateEntry (Some e) i = None \<longleftrightarrow> entry_violations i e = {}) \<and>
   (entry_violations i e \<noteq> {} \<longrightarrow>
      (\<exists>issues. ValidateEntry (Some e) i = Some (Join issues) \<and>
         set issues = entry_violations i e)) \<and>
   (MagicMismatch m \<in> file_violations f \<longleftrightarrow>
      m = Magic f \<and> Magic f \<noteq> [] \<and> Magic f \<noteq> FileMagic) \<and>
   (VersionMismatch v \<in> file_violations f \<longleftrightarrow>
      v = Version f \<and> Version f \<noteq> 0 \<and> Version f \<noteq> SupportedVersion)"
proof (intro conjI impI)
  show "ValidateFile (Some f) = None \<longleftrightarrow> file_violations f = {}"
    by (simp add: ValidateFile_cases)
  show "ValidateEntry (Some e) i = None \<longleftrightarrow> entry_violations i e = {}"
    by (simp add: ValidateEntry_cases)
  show "MagicMismatch m \<in> file_violations f \<longleftrightarrow>
      m = Magic f \<and> Magic f \<noteq> [] \<and> Magic f \<noteq> FileMagic"
    by (simp add: magic_violation_iff FileMagic_def)
  show "VersionMismatch v \<in> file_violations f \<longleftrightarrow>
      v = Version f \<and> Version f \<noteq> 0 \<and> Version f \<noteq> SupportedVersion"
    by (simp add: version_violation_iff SupportedVersion_def)
next
  assume "file_violations f \<noteq> {}"
  then have "ValidateFile (Some f) = Some (Join (fileIssues f))"
    by (simp add: ValidateFile_cases)
  moreover have "set (leaves (Join (fileIssues f))) = file_violations f"
    using fileIssues_leaves [of f] by simp
  ultimately show "\<exists>issues. ValidateFile (Some f) = Some (Join issues) \<and>
         set (leaves (Join issues)) = file_violations f"
    by blast
next
  assume "entry_violations i e \<noteq> {}"
  then have "ValidateEntry (Some e) i = Some (Join (entryIssues e i))"
    by (simp add: ValidateEntry_cases)
  then show "\<exists>issues. ValidateEntry (Some e) i = Some (Join issues) \<and>
         set issues = entry_violations i e"
    using entryIssues_set [of e i] by blast
qed

theorem Validate_collects_all_witness:
  "ValidateFile (Some file_bool2) = None \<and>
   file_violations file_bool2 = {} \<and>
   ValidateFile (Some bad_file) =
     Some (Join [MagicMismatch ''XXXX'', VersionMismatch 99,
                 Join [MipCountLen 0 5 0, MipCountsDiffer 0 5 0]]) \<and>
   file_violations bad_file =
     {MagicMismatch ''XXXX'', VersionMismatch 99, MipCountLen 0 5 0, MipCountsDiffer 0 5 0}"
proof -
  have v0: "ValidateFile (Some file_bool2) = None"
    by (simp add: ValidateFile_def fileIssues_def file_bool2_def FileMagic_def
        SupportedVersion_def MaxUint32_def ValidateEntry_def entryIssues_def
        intToU32Strict_def MaxUint8_def Let_def)
  have vb: "ValidateFile (Some bad_file) =
     Some (Join [MagicMismatch ''XXXX'', VersionMismatch 99,
                 Join [MipCountLen 0 5 0, MipCountsDiffer 0 5 0]])"
    by (simp add: ValidateFile_def fileIssues_def bad_file_def sample_entry_def FileMagic_def
        SupportedVersion_def MaxUint32_def ValidateEntry_def entryIssues_def
        intToU32Strict_def MaxUint8_def Let_def)
  have t0: "file_violations file_bool2 = {}"
    using v0 Validate_collects_all [of file_bool2 sample_entry 0 "[]" 0] by blast
  have ne: "file_violations bad_file \<noteq> {}"
    using vb Validate_collects_all [of bad_file sample_entry 0 "[]" 0] by auto
  then obtain issues where
    i: "ValidateFile (Some bad_file) = Some (Join issues)"
       "set (leaves (Join issues)) = file_violations bad_file"
    using Validate_collects_all [of bad_file sample_entry 0 "[]" 0] by blast
  from i(1) vb have "issues = [MagicMismatch ''XXXX'', VersionMismatch 99,
                 Join [MipCountLen 0 5 0, MipCountsDiffer 0 5 0]]"
    by simp
  with i(2) have tb: "file_violations bad_file =
     {MagicMismatch ''XXXX'', VersionMismatch 99, MipCountLen 0 5 0, MipCountsDiffer 0 5 0}"
    by auto
  from v0 vb t0 tb show ?thesis
    by blast
qed

subsection \<open>The suffix classifier matches at token boundaries only\<close>

declare containsTokenBoundaryFrom.simps [simp del]

lemma occurs_at_0: "occurs_at s tok 0 \<longleftrightarrow> take (length tok) s = tok"
  unfolding occurs_at_def by (metis add_0 drop_0 length_take min_def nat_le_linear take_all)

lemma occurs_at_Suc: "occurs_at (c # s) tok (Suc j) \<longleftrightarrow> occurs_at s tok j"
  unfolding occurs_at_def by simp

lemma Index_Some:
  "Index s tok = Some i \<Longrightarrow> occurs_at s tok i \<and> (\<forall>j<i. \<not> occurs_at s tok j)"
proof (induction s arbitrary: i)
  case Nil
  then show ?case by (auto simp: occurs_at_def split: if_splits)
next
  case (Cons c s)
  show ?case
  proof (cases "take (length tok) (c # s) = tok")
    case True
    with Cons.prems have "i = 0" by simp
    with True show ?thesis by (simp add: occurs_at_0)
  next
    case False
    with Cons.prems obtain k where k: "Index s tok = Some k" "i = Suc k"
      by auto
    from Cons.IH [OF k(1)] have ih: "occurs_at s tok k" "\<forall>j<k. \<not> occurs_at s tok j"
      by auto
    have "\<not> occurs_at (c # s) tok j" if "j < Suc k" for j
    proof (cases j)
      case 0
      with False show ?thesis by (simp add: occurs_at_0)
    next
      case (Suc j')
      with that ih(2) show ?thesis by (simp add: occurs_at_Suc)
    qed
    with ih(1) k(2) show ?thesis by (simp add: occurs_at_Suc)
  qed
qed

lemma Index_None: "Index s tok = None \<Longrightarrow> \<not> occurs_at s tok j"
proof (induction s arbitrary: j)
  case Nil
  then show ?case by (auto simp: occurs_at_def split: if_splits)
next
  case (Cons c s)
  then have f: "take (length tok) (c # s) \<noteq> tok" and n: "Index s tok = None"
    by (auto split: if_splits)
  show ?case
  proof (cases j)
    case 0
    with f show ?thesis by (simp add: occurs_at_0)
  next
    case (Suc j')
    with Cons.IH [OF n] show ?thesis by (simp add: occurs_at_Suc)
  qed
qed

lemma occurs_at_drop:
  "from \<le> length s \<Longrightarrow> occurs_at (drop from s) tok j \<longleftrightarrow> occurs_at s tok (from + j)"
  unfolding occurs_at_def by (auto simp: add.commute)

lemma containsTokenBoundaryFrom_iff:
  "from \<le> length s \<Longrightarrow>
     containsTokenBoundaryFrom s tok from
       \<longleftrightarrow> (\<exists>pos\<ge>from. occurs_at s tok pos \<and> at_boundary s tok pos)"
proof (induction s tok "from" rule: containsTokenBoundaryFrom.induct)
  case (1 s tok "from")
  show ?case
  proof (cases "Index (drop from s) tok")
    case None
    have "\<not> occurs_at s tok pos" if "pos \<ge> from" for pos
    proof -
      from that obtain j where "pos = from + j"
        using le_Suc_ex by blast
      then show ?thesis
        using Index_None [OF None, of j] occurs_at_drop [OF "1.prems", of tok j] by simp
    qed
    with None show ?thesis
      by (subst containsTokenBoundaryFrom.simps) auto
  next
    case (Some idx)
    let ?pos = "from + idx"
    from Index_Some [OF Some] have
      occ: "occurs_at s tok ?pos" and
      first: "\<forall>j<idx. \<not> occurs_at s tok (from + j)"
      using occurs_at_drop [OF "1.prems", of tok] by auto
    have before: "\<not> occurs_at s tok p" if "from \<le> p" "p < ?pos" for p
    proof -
      from that obtain j where "p = from + j" "j < idx"
        by (metis le_Suc_ex nat_add_left_cancel_less)
      with first show ?thesis by simp
    qed
    show ?thesis
    proof (cases "at_boundary s tok ?pos")
      case True
      then have "containsTokenBoundaryFrom s tok from"
        by (subst containsTokenBoundaryFrom.simps) (auto simp: Some at_boundary_def Let_def)
      with occ True show ?thesis
        by (meson le_add1)
    next
      case False
      then have nb: "\<not> ?pos + length tok \<ge> length s"
        "\<not> (s ! (?pos + length tok) = CHR ''_'' \<or> s ! (?pos + length tok) = CHR ''-'' \<or>
            s ! (?pos + length tok) = CHR ''.'')"
        using occ by (auto simp: at_boundary_def occurs_at_def)
      have le: "?pos + 1 \<le> length s"
        using nb(1) by simp
      have rec: "containsTokenBoundaryFrom s tok from = containsTokenBoundaryFrom s tok (?pos + 1)"
        using nb by (subst containsTokenBoundaryFrom.simps) (simp add: Some Let_def)
      have IH: "containsTokenBoundaryFrom s tok (?pos + 1)
          \<longleftrightarrow> (\<exists>pos\<ge>?pos + 1. occurs_at s tok pos \<and> at_boundary s tok pos)"
        using "1.IH" [OF Some refl refl _ refl _ le] nb by auto
      have "(\<exists>pos\<ge>?pos + 1. occurs_at s tok pos \<and> at_boundary s tok pos)
          \<longleftrightarrow> (\<exists>pos\<ge>from. occurs_at s tok pos \<and> at_boundary s tok pos)"
      proof
        assume "\<exists>pos\<ge>?pos + 1. occurs_at s tok pos \<and> at_boundary s tok pos"
        then show "\<exists>pos\<ge>from. occurs_at s tok pos \<and> at_boundary s tok pos"
          by (meson add_leD1 le_add1 le_trans)
      next
        assume "\<exists>pos\<ge>from. occurs_at s tok pos \<and> at_boundary s tok pos"
        then obtain p where p: "p \<ge> from" "occurs_at s tok p" "at_boundary s tok p"
          by blast
        have "p \<noteq> ?pos" using p(3) False by auto
        moreover have "\<not> p < ?pos" using before p(1,2) by blast
        ultimately have "p \<ge> ?pos + 1" by simp
        with p show "\<exists>pos\<ge>?pos + 1. occurs_at s tok pos \<and> at_boundary s tok pos"
          by blast
      qed
      with rec IH show ?thesis by simp
    qed
  qed
qed

lemma containsTokenBoundary_iff: "containsTokenBoundary s tok \<longleftrightarrow> boundary_match s tok"
proof -
  have "(\<exists>pos\<ge>0. occurs_at s tok pos \<and> at_boundary s tok pos) \<longleftrightarrow> boundary_match s tok"
    unfolding boundary_match_def
    by (auto simp: occurs_at_def)
  then show ?thesis
    using containsTokenBoundaryFrom_iff [of 0 s tok]
    by (simp add: containsTokenBoundary_def)
qed

lemma guessLoop_find:
  "guessLoop rules s =
     (case find (\<lambda>r. boundary_match s (token r)) rules of
        None \<Rightarrow> (SuffixDiffuseSRGB, False)
      | Some r \<Rightarrow> (val r, True))"
  by (induction rules) (simp_all add: containsTokenBoundary_iff)

lemma LastIndexByte_absent: "c \<notin> set s \<Longrightarrow> LastIndexByte s c = -1"
  by (induction s) (auto simp add: Let_def)

lemma LastIndexByte_last:
  "c \<notin> set b \<Longrightarrow> LastIndexByte (a @ c # b) c = int (length a)"
  by (induction a) (simp_all add: Let_def LastIndexByte_absent)

lemma LastIndexByte_tl: "c \<notin> set (tl s) \<Longrightarrow> LastIndexByte s c \<le> 0"
  by (cases s) (simp_all add: Let_def LastIndexByte_absent)

text \<open>
  C8. With \<open>lower\<close> for \<^verbatim>\<open>strings.ToLower\<close>, the classifier scans
  \<open>scanInput lower path\<close>: the lower-cased path, cut before its last \<open>.\<close> when that is
  not its first byte. It answers with the first rule of the table whose
  token occurs in that string at a position followed by \<open>_\<close>, \<open>-\<close>, \<open>.\<close> or the end of
  the string, and an occurrence followed by any other byte does not count. When no rule
  matches in this way it returns class \<open>0\<close> (diffuse sRGB) and \<open>False\<close>.
\<close>

theorem GuessSuffixTypeFromPath_boundary:
  "containsTokenBoundary s tok = boundary_match s tok \<and>
   GuessSuffixTypeFromPath lower path =
     (case find (\<lambda>r. boundary_match (scanInput lower path) (token r)) suffixGuessRules of
        None \<Rightarrow> (0, False)
      | Some r \<Rightarrow> (val r, True)) \<and>
   (snd (GuessSuffixTypeFromPath lower path) \<longleftrightarrow>
      (\<exists>r \<in> set suffixGuessRules. boundary_match (scanInput lower path) (token r))) \<and>
   (\<not> snd (GuessSuffixTypeFromPath lower path) \<longrightarrow>
      GuessSuffixTypeFromPath lower path = (SuffixDiffuseSRGB, False) \<and> SuffixDiffuseSRGB = 0) \<and>
   (lower path = a @ CHR ''.'' # b \<and> a \<noteq> [] \<and> CHR ''.'' \<notin> set b \<longrightarrow>
      scanInput lower path = a) \<and>
   (CHR ''.'' \<notin> set (tl (lower path)) \<longrightarrow> scanInput lower path = lower path)"
proof -
  let ?P = "\<lambda>r. boundary_match (scanInput lower path) (token r)"
  have g: "GuessSuffixTypeFromPath lower path =
     (case find ?P suffixGuessRules of None \<Rightarrow> (0, False) | Some r \<Rightarrow> (val r, True))"
    by (simp add: GuessSuffixTypeFromPath_def guessLoop_find SuffixDiffuseSRGB_def
        split: option.split)
  have s: "snd (GuessSuffixTypeFromPath lower path) \<longleftrightarrow> (\<exists>r \<in> set suffixGuessRules. ?P r)"
  proof (cases "find ?P suffixGuessRules")
    case None
    have a: "\<not> snd (GuessSuffixTypeFromPath lower path)"
      by (simp add: g None)
    have b: "\<not> (\<exists>r \<in> set suffixGuessRules. ?P r)"
      using None by (simp add: find_None_iff)
    from a b show ?thesis
      by blast
  next
    case (Some r)
    have a: "snd (GuessSuffixTypeFromPath lower path)"
      by (simp add: g Some)
    have b: "r \<in> set suffixGuessRules \<and> ?P r"
      using Some by (auto simp: find_Some_iff)
    from a b show ?thesis
      by blast
  qed
  have n: "\<not> snd (GuessSuffixTypeFromPath lower path) \<longrightarrow>
      GuessSuffixTypeFromPath lower path = (SuffixDiffuseSRGB, False) \<and> SuffixDiffuseSRGB = 0"
    unfolding g by (auto simp: SuffixDiffuseSRGB_def split: option.splits)
  have d1: "lower path = a @ CHR ''.'' # b \<and> a \<noteq> [] \<and> CHR ''.'' \<notin> set b \<longrightarrow>
      scanInput lower path = a"
    by (auto simp: scanInput_def Let_def LastIndexByte_last)
  have d2: "CHR ''.'' \<notin> set (tl (lower path)) \<longrightarrow> scanInput lower path = lower path"
    using LastIndexByte_tl [of "CHR ''.''" "lower path"]
    by (auto simp: scanInput_def Let_def)
  from containsTokenBoundary_iff g s n d1 d2 show ?thesis
    by blast
qed

theorem GuessSuffixTypeFromPath_boundary_witness:
  "GuessSuffixTypeFromPath lowerASCII ''a/b/c/Thing_DTSMDI.paa'' = (11, True) \<and>
   scanInput lowerASCII ''a/b/c/Thing_DTSMDI.paa'' = ''a/b/c/thing_dtsmdi'' \<and>
   (\<exists>r \<in> set suffixGuessRules. boundary_match ''a/b/c/thing_dtsmdi'' (token r)) \<and>
   GuessSuffixTypeFromPath lowerASCII ''a/b/c/plain_color.paa'' = (0, False) \<and>
   \<not> containsTokenBoundary ''a/b/c/plain_color'' ''_co'' \<and>
   \<not> boundary_match ''a/b/c/plain_color'' ''_co'' \<and>
   containsTokenBoundary ''a/plain_co-lor'' ''_co'' \<and>
   boundary_match ''a/plain_co-lor'' ''_co''"
proof -
  have g1: "GuessSuffixTypeFromPath lowerASCII ''a/b/c/Thing_DTSMDI.paa'' = (11, True)"
    by code_simp
  have l1: "lowerASCII ''a/b/c/Thing_DTSMDI.paa'' = ''a/b/c/thing_dtsmdi'' @ CHR ''.'' # ''paa'' \<and>
      ''a/b/c/thing_dtsmdi'' \<noteq> [] \<and> CHR ''.'' \<notin> set ''paa''"
    by code_simp
  have g2: "GuessSuffixTypeFromPath lowerASCII ''a/b/c/plain_color.paa'' = (0, False)"
    by code_simp
  have c1: "\<not> containsTokenBoundary ''a/b/c/plain_color'' ''_co''"
    by code_simp
  have c2: "containsTokenBoundary ''a/plain_co-lor'' ''_co''"
    by code_simp
  have s1: "scanInput lowerASCII ''a/b/c/Thing_DTSMDI.paa'' = ''a/b/c/thing_dtsmdi''"
    using l1 GuessSuffixTypeFromPath_boundary
      [of "[]" "[]" lowerASCII "''a/b/c/Thing_DTSMDI.paa''" "''a/b/c/thing_dtsmdi''" "''paa''"]
    by blast
  have sn: "snd (GuessSuffixTypeFromPath lowerASCII ''a/b/c/Thing_DTSMDI.paa'')"
    using g1 by simp
  have "\<exists>r \<in> set suffixGuessRules.
      boundary_match (scanInput lowerASCII ''a/b/c/Thing_DTSMDI.paa'') (token r)"
    using sn GuessSuffixTypeFromPath_boundary
      [of "[]" "[]" lowerASCII "''a/b/c/Thing_DTSMDI.paa''" "[]" "[]"]
    by blast
  then have m1: "\<exists>r \<in> set suffixGuessRules. boundary_match ''a/b/c/thing_dtsmdi'' (token r)"
    by (simp only: s1)
  have b1: "\<not> boundary_match ''a/b/c/plain_color'' ''_co''"
    using c1 GuessSuffixTypeFromPath_boundary
      [of "''a/b/c/plain_color''" "''_co''" lowerASCII "[]" "[]" "[]"]
    by blast
  have b2: "boundary_match ''a/plain_co-lor'' ''_co''"
    using c2 GuessSuffixTypeFromPath_boundary
      [of "''a/plain_co-lor''" "''_co''" lowerASCII "[]" "[]" "[]"]
    by blast
  from g1 s1 m1 g2 c1 b1 c2 b2 show ?thesis
    by blast
qed

subsection \<open>Worker-count resolution\<close>

lemma shl1_small: "0 \<le> p \<Longrightarrow> p < 2 ^ 62 \<Longrightarrow> shl1 p = 2 * p"
  by (simp add: shl1_def wrap64_def)

lemma floorPow2_loop_pow2:
  "p = 2 ^ k \<Longrightarrow> p \<le> v \<Longrightarrow> v < 2 ^ 62 \<Longrightarrow>
     \<exists>j. floorPow2_loop p v = Some (2 ^ j) \<and> 2 ^ j \<le> v \<and> v < 2 ^ (j + 1)"
proof (induction "nat (v - p)" arbitrary: p k rule: less_induct)
  case less
  have p0: "0 < p" using less.prems(1) by simp
  have sh: "shl1 p = 2 * p"
    using shl1_small [of p] p0 less.prems by simp
  show ?case
  proof (cases "2 * p \<le> v")
    case True
    have "\<exists>j. floorPow2_loop (2 * p) v = Some (2 ^ j) \<and> 2 ^ j \<le> v \<and> v < 2 ^ (j + 1)"
    proof (rule less.hyps [of "2 * p" "Suc k"])
      show "nat (v - 2 * p) < nat (v - p)" using p0 True by simp
      show "2 * p = 2 ^ Suc k" using less.prems(1) by simp
      show "2 * p \<le> v" by (rule True)
      show "v < 2 ^ 62" by (rule less.prems(3))
    qed
    moreover have "floorPow2_loop p v = floorPow2_loop (2 * p) v"
      using True sh by (subst floorPow2_loop.simps) simp
    ultimately show ?thesis by simp
  next
    case False
    then have "floorPow2_loop p v = Some p"
      using sh by (subst floorPow2_loop.simps) simp
    with False less.prems show ?thesis
      by (intro exI [of _ k]) simp
  qed
qed

lemma floorPow2_spec:
  assumes "2 \<le> v" "v < 2 ^ 62"
  shows "\<exists>j. floorPow2 v = Some (2 ^ j) \<and> 2 ^ j \<le> v \<and> v < 2 ^ (j + 1)"
  using floorPow2_loop_pow2 [of 1 0 v] assms by (simp add: floorPow2_def)

text \<open>
  C6. With \<open>procs\<close> the host parallelism (\<^verbatim>\<open>GOMAXPROCS\<close>, a positive Go \<^verbatim>\<open>int\<close>) the
  resolution returns, as a function of the requested count and the input count: 1 for an
  input count of at most 1; for the request \<open>WorkersAuto\<close> the largest power of two not
  above \<open>min (max (procs div 4) 2) fileCount\<close>; 1 for any other request of at most 1; and
  the minimum of request and input count otherwise. In particular the loop of
  \<^verbatim>\<open>floorPow2\<close> ends on every value it is given here.
\<close>

theorem resolveBuildWorkers_policy:
  assumes "1 \<le> procs" and "procs < 2 ^ 63"
  shows
    "(fileCount \<le> 1 \<longrightarrow> resolveBuildWorkers procs requested fileCount = Some 1) \<and>
     (1 < fileCount \<and> requested = WorkersAuto \<longrightarrow>
        (\<exists>k. resolveBuildWorkers procs requested fileCount = Some (2 ^ k) \<and>
             2 ^ k \<le> min (max (procs div 4) 2) fileCount \<and>
             min (max (procs div 4) 2) fileCount < 2 ^ (k + 1))) \<and>
     (1 < fileCount \<and> requested \<noteq> WorkersAuto \<and> requested \<le> 1 \<longrightarrow>
        resolveBuildWorkers procs requested fileCount = Some 1) \<and>
     (1 < fileCount \<and> 1 < requested \<longrightarrow>
        resolveBuildWorkers procs requested fileCount = Some (min requested fileCount))"
proof (intro conjI impI)
  show "resolveBuildWorkers procs requested fileCount = Some 1" if "fileCount \<le> 1"
    using that by (simp add: resolveBuildWorkers_def)
  show "resolveBuildWorkers procs requested fileCount = Some 1"
    if "1 < fileCount \<and> requested \<noteq> WorkersAuto \<and> requested \<le> 1"
    using that by (simp add: resolveBuildWorkers_def)
  show "resolveBuildWorkers procs requested fileCount = Some (min requested fileCount)"
    if "1 < fileCount \<and> 1 < requested"
    using that by (simp add: resolveBuildWorkers_def WorkersAuto_def)
next
  assume a: "1 < fileCount \<and> requested = WorkersAuto"
  let ?c = "min (max (procs div 4) 2) fileCount"
  have lo: "2 \<le> ?c"
    using a by simp
  have "procs div 4 < 2 ^ 61"
    using assms by simp
  then have hi: "?c < 2 ^ 62"
    by simp
  have "resolveBuildWorkers procs requested fileCount = floorPow2 ?c"
    using a by (simp add: resolveBuildWorkers_def autoBuildWorkers_def)
  with floorPow2_spec [OF lo hi]
  show "\<exists>k. resolveBuildWorkers procs requested fileCount = Some (2 ^ k) \<and>
             2 ^ k \<le> ?c \<and> ?c < 2 ^ (k + 1)"
    by simp
qed

theorem resolveBuildWorkers_policy_witness:
  "(1 :: int) \<le> 20 \<and> (20 :: int) < 2 ^ 63 \<and>
   resolveBuildWorkers 20 WorkersAuto 1 = Some 1 \<and>
   resolveBuildWorkers 20 WorkersAuto 100 = Some 4 \<and>
   resolveBuildWorkers 20 WorkersAuto 3 = Some 2 \<and>
   resolveBuildWorkers 20 0 100 = Some 1 \<and>
   resolveBuildWorkers 20 8 3 = Some 3 \<and>
   (\<exists>k. resolveBuildWorkers 20 WorkersAuto 100 = Some (2 ^ k) \<and>
        (2 :: int) ^ k \<le> 5 \<and> (5 :: int) < 2 ^ (k + 1))"
proof -
  have h: "(1 :: int) \<le> 20" "(20 :: int) < 2 ^ 63"
    by simp_all
  have e: "resolveBuildWorkers 20 WorkersAuto 100 = Some 4"
    "resolveBuildWorkers 20 WorkersAuto 3 = Some 2"
    by (simp_all add: resolveBuildWorkers_def autoBuildWorkers_def floorPow2_def
        floorPow2_loop.simps shl1_def wrap64_def WorkersAuto_def)
  have a: "resolveBuildWorkers 20 WorkersAuto 1 = Some 1"
    using resolveBuildWorkers_policy [OF h, of 1 WorkersAuto] by simp
  have b: "resolveBuildWorkers 20 0 100 = Some 1"
    using resolveBuildWorkers_policy [OF h, of 100 0] by (simp add: WorkersAuto_def)
  have c: "resolveBuildWorkers 20 8 3 = Some 3"
    using resolveBuildWorkers_policy [OF h, of 3 8] by simp
  have d: "\<exists>k. resolveBuildWorkers 20 WorkersAuto 100 = Some (2 ^ k) \<and>
        (2 :: int) ^ k \<le> 5 \<and> (5 :: int) < 2 ^ (k + 1)"
    using resolveBuildWorkers_policy [OF h, of 100 WorkersAuto] by simp
  from h e a b c d show ?thesis
    by blast
qed

subsection \<open>The worker pool fills every slot as the serial loop would\<close>

lemma set_update_keep:
  assumes "x \<in> set xs" and "xs ! w \<noteq> x"
  shows "x \<in> set (xs[w := y])"
proof -
  from assms(1) obtain n where n: "n < length xs" "xs ! n = x"
    by (auto simp: in_set_conv_nth)
  with assms(2) have "n \<noteq> w" by auto
  with n have "(xs[w := y]) ! n = x" "n < length (xs[w := y])"
    by simp_all
  then show ?thesis
    using nth_mem by blast
qed

lemma set_update_None: "Some i \<in> set (xs[w := None]) \<Longrightarrow> Some i \<in> set xs"
  using set_update_subset_insert [of xs w None] by auto

lemma set_update_Some: "Some j \<in> set (xs[w := Some i]) \<Longrightarrow> j = i \<or> Some j \<in> set xs"
  using set_update_subset_insert [of xs w "Some i"] by auto

lemma slot_ok_same:
  "errs st' = errs st \<Longrightarrow> entries st' = entries st \<Longrightarrow>
     slot_ok be ins st' i = slot_ok be ins st i"
  by (simp add: slot_ok_def split: sum.split)

lemma slot_ok_other_err:
  "j \<noteq> i \<Longrightarrow> errs st' = (errs st)[i := x] \<Longrightarrow> entries st' = entries st \<Longrightarrow>
     slot_ok be ins st' j = slot_ok be ins st j"
  by (simp add: slot_ok_def split: sum.split)

lemma slot_ok_other_entry:
  "j \<noteq> i \<Longrightarrow> errs st' = errs st \<Longrightarrow> entries st' = (entries st)[i := x] \<Longrightarrow>
     slot_ok be ins st' j = slot_ok be ins st j"
  by (simp add: slot_ok_def split: sum.split)

lemma pool_inv_init: "pool_inv be ins (pool_init k (length ins))"
  by (simp add: pool_inv_def pool_init_def pending_def)

lemma pool_inv_step:
  assumes "pool_step be ins st st'" and "pool_inv be ins st"
  shows "pool_inv be ins st'"
  using assms
proof (cases rule: pool_step.cases)
  case dispatch
  have "slot_ok be ins st' i \<or> (errs st' ! i = None \<and> pending st' i)" if "i < length ins" for i
  proof -
    from assms(2) that have "slot_ok be ins st i \<or> (errs st ! i = None \<and> pending st i)"
      by (simp add: pool_inv_def)
    then show ?thesis
      using dispatch slot_ok_same [of st' st be ins i] by (auto simp: pending_def)
  qed
  then show ?thesis
    using assms(2) dispatch by (auto simp: pool_inv_def)
next
  case (receive w i q)
  have "slot_ok be ins st' j \<or> (errs st' ! j = None \<and> pending st' j)" if "j < length ins" for j
  proof -
    from assms(2) that have "slot_ok be ins st j \<or> (errs st ! j = None \<and> pending st j)"
      by (simp add: pool_inv_def)
    then show ?thesis
    proof
      assume "slot_ok be ins st j"
      then show ?thesis using receive slot_ok_same [of st' st be ins j] by simp
    next
      assume a: "errs st ! j = None \<and> pending st j"
      have "pending st' j"
      proof -
        from a have "nextJob st \<le> j \<or> j = i \<or> j \<in> set q \<or> Some j \<in> set (running st)"
          using receive by (auto simp: pending_def)
        then show ?thesis
        proof (elim disjE)
          assume "Some j \<in> set (running st)"
          then have "Some j \<in> set ((running st)[w := Some i])"
            using receive by (intro set_update_keep) auto
          then show ?thesis using receive by (simp add: pending_def)
        next
          assume "j = i"
          then have "Some j \<in> set ((running st)[w := Some i])"
            using receive by (simp add: set_update_memI)
          then show ?thesis using receive by (simp add: pending_def)
        qed (use receive in \<open>auto simp: pending_def\<close>)
      qed
      with a receive show ?thesis by simp
    qed
  qed
  moreover have "\<forall>j. Some j \<in> set (running st') \<longrightarrow> j < nextJob st'"
    using assms(2) receive by (auto simp: pool_inv_def dest!: set_update_Some)
  ultimately show ?thesis
    using assms(2) receive by (auto simp: pool_inv_def)
next
  case (finish_err w i err)
  have i: "i < length ins"
    using assms(2) finish_err by (metis nth_mem pool_inv_def order_less_le_trans)
  have "slot_ok be ins st' j \<or> (errs st' ! j = None \<and> pending st' j)" if "j < length ins" for j
  proof (cases "j = i")
    case True
    then show ?thesis
      using finish_err i assms(2) by (simp add: slot_ok_def pool_inv_def)
  next
    case False
    from assms(2) that have "slot_ok be ins st j \<or> (errs st ! j = None \<and> pending st j)"
      by (simp add: pool_inv_def)
    then show ?thesis
    proof
      assume "slot_ok be ins st j"
      then show ?thesis
        using finish_err False slot_ok_other_err [of j i st' st "Some err" be ins] by simp
    next
      assume a: "errs st ! j = None \<and> pending st j"
      have "pending st' j"
      proof -
        from a have "nextJob st \<le> j \<or> j \<in> set (queue st) \<or> Some j \<in> set (running st)"
          by (simp add: pending_def)
        then show ?thesis
        proof (elim disjE)
          assume "Some j \<in> set (running st)"
          then have "Some j \<in> set ((running st)[w := None])"
            using finish_err False by (intro set_update_keep) auto
          then show ?thesis using finish_err by (simp add: pending_def)
        qed (use finish_err in \<open>auto simp: pending_def\<close>)
      qed
      with a finish_err False show ?thesis by simp
    qed
  qed
  moreover have "\<forall>j. Some j \<in> set (running st') \<longrightarrow> j < nextJob st'"
    using assms(2) finish_err by (auto simp: pool_inv_def dest!: set_update_None)
  ultimately show ?thesis
    using assms(2) finish_err by (auto simp: pool_inv_def)
next
  case (finish_ok w i entry)
  have i: "i < length ins"
    using assms(2) finish_ok by (metis nth_mem pool_inv_def order_less_le_trans)
  have "slot_ok be ins st' j \<or> (errs st' ! j = None \<and> pending st' j)" if "j < length ins" for j
  proof (cases "j = i")
    case True
    from assms(2) i have "slot_ok be ins st i \<or> errs st ! i = None"
      by (auto simp: pool_inv_def)
    then have "errs st ! i = None"
      using finish_ok by (auto simp: slot_ok_def)
    then show ?thesis
      using True finish_ok i assms(2) by (simp add: slot_ok_def pool_inv_def)
  next
    case False
    from assms(2) that have "slot_ok be ins st j \<or> (errs st ! j = None \<and> pending st j)"
      by (simp add: pool_inv_def)
    then show ?thesis
    proof
      assume "slot_ok be ins st j"
      then show ?thesis
        using finish_ok False slot_ok_other_entry [of j i st' st entry be ins] by simp
    next
      assume a: "errs st ! j = None \<and> pending st j"
      have "pending st' j"
      proof -
        from a have "nextJob st \<le> j \<or> j \<in> set (queue st) \<or> Some j \<in> set (running st)"
          by (simp add: pending_def)
        then show ?thesis
        proof (elim disjE)
          assume "Some j \<in> set (running st)"
          then have "Some j \<in> set ((running st)[w := None])"
            using finish_ok False by (intro set_update_keep) auto
          then show ?thesis using finish_ok by (simp add: pending_def)
        qed (use finish_ok in \<open>auto simp: pending_def\<close>)
      qed
      with a finish_ok False show ?thesis by simp
    qed
  qed
  moreover have "\<forall>j. Some j \<in> set (running st') \<longrightarrow> j < nextJob st'"
    using assms(2) finish_ok by (auto simp: pool_inv_def dest!: set_update_None)
  ultimately show ?thesis
    using assms(2) finish_ok by (auto simp: pool_inv_def)
qed

lemma pool_inv_steps:
  "(pool_step be ins)\<^sup>*\<^sup>* st st' \<Longrightarrow> pool_inv be ins st \<Longrightarrow> pool_inv be ins st'"
  by (induction rule: rtranclp_induct) (auto intro: pool_inv_step)

lemma pool_run_slots:
  assumes "pool_run be ins k st"
  shows "\<forall>i < length ins. slot_ok be ins st i"
proof -
  from assms have inv: "pool_inv be ins st" and d: "pool_done ins st"
    using pool_inv_steps pool_inv_init by (auto simp: pool_run_def)
  from d have "\<not> pending st i" if "i < length ins" for i
    using that by (auto simp: pool_done_def pending_def list_all_iff)
  with inv show ?thesis
    by (auto simp: pool_inv_def)
qed

lemma collectLoop_serialLoop:
  assumes "\<forall>j < length ps. ins ! (i + j) = ps ! j \<and> i + j < length ins \<and> slot_ok be ins st (i + j)"
  shows "collectLoop skip ps i (entries st) (errs st) tex iss = serialLoop be skip ps tex iss"
  using assms
proof (induction ps arbitrary: i tex iss)
  case Nil
  then show ?case by simp
next
  case (Cons p ps)
  from Cons.prems have hd: "ins ! i = p" "slot_ok be ins st i"
    by force+
  have tl: "\<forall>j < length ps. ins ! (Suc i + j) = ps ! j \<and> Suc i + j < length ins \<and>
      slot_ok be ins st (Suc i + j)"
  proof (intro allI impI)
    fix j assume "j < length ps"
    then have "Suc j < length (p # ps)" by simp
    from Cons.prems [rule_format, OF this] show
      "ins ! (Suc i + j) = ps ! j \<and> Suc i + j < length ins \<and> slot_ok be ins st (Suc i + j)"
      by simp
  qed
  show ?case
  proof (cases "be p")
    case (Inl err)
    with hd have "errs st ! i = Some err"
      by (simp add: slot_ok_def)
    with Inl show ?thesis
      using Cons.IH [OF tl] by (cases skip) simp_all
  next
    case (Inr entry)
    with hd have "errs st ! i = None" "entries st ! i = entry"
      by (simp_all add: slot_ok_def)
    with Inr show ?thesis
      using Cons.IH [OF tl] by simp
  qed
qed

lemma pool_run_collect:
  assumes "pool_run be ins k st"
  shows "collectLoop skip ins 0 (entries st) (errs st) [] [] = serialLoop be skip ins [] []"
  using pool_run_slots [OF assms] collectLoop_serialLoop [of ins ins 0 be st skip "[]" "[]"]
  by simp

lemma dispatch_all:
  "nextJob st = m \<Longrightarrow> m \<le> length ins \<Longrightarrow>
     (pool_step be ins)\<^sup>*\<^sup>* st (st\<lparr>queue := queue st @ [m..<length ins], nextJob := length ins\<rparr>)"
proof (induction "length ins - m" arbitrary: st m)
  case 0
  then have "m = length ins" by simp
  with 0 have "st\<lparr>queue := queue st @ [m..<length ins], nextJob := length ins\<rparr> = st"
    by (cases st) simp
  then show ?case by simp
next
  case (Suc d)
  then have lt: "nextJob st < length ins" by simp
  let ?st1 = "st\<lparr>queue := queue st @ [nextJob st], nextJob := Suc (nextJob st)\<rparr>"
  have s1: "pool_step be ins st ?st1"
    using lt by (rule pool_step.dispatch)
  have "(pool_step be ins)\<^sup>*\<^sup>* ?st1
      (?st1\<lparr>queue := queue ?st1 @ [Suc m..<length ins], nextJob := length ins\<rparr>)"
    using Suc by (intro Suc.hyps(1)) auto
  moreover have "?st1\<lparr>queue := queue ?st1 @ [Suc m..<length ins], nextJob := length ins\<rparr>
      = st\<lparr>queue := queue st @ [m..<length ins], nextJob := length ins\<rparr>"
    using Suc.prems lt by (simp add: upt_conv_Cons)
  ultimately show ?case
    using s1 by (metis converse_rtranclp_into_rtranclp)
qed

lemma drain_queue:
  "running st = replicate k None \<Longrightarrow> 0 < k \<Longrightarrow> queue st = q \<Longrightarrow>
     \<exists>st'. (pool_step be ins)\<^sup>*\<^sup>* st st' \<and> queue st' = [] \<and>
           running st' = replicate k None \<and> nextJob st' = nextJob st"
proof (induction q arbitrary: st)
  case Nil
  then show ?case by blast
next
  case (Cons i q)
  let ?st1 = "st\<lparr>queue := q, running := (running st)[0 := Some i]\<rparr>"
  have s1: "pool_step be ins st ?st1"
    using Cons.prems by (intro pool_step.receive) auto
  have r1: "running ?st1 ! 0 = Some i" "0 < length (running ?st1)"
    using Cons.prems by auto
  obtain st2 where s2: "pool_step be ins ?st1 st2" and
    q2: "queue st2 = q" "running st2 = (running ?st1)[0 := None]" "nextJob st2 = nextJob st"
  proof (cases "be (ins ! i)")
    case (Inl err)
    let ?e = "?st1\<lparr>errs := (errs ?st1)[i := Some err], running := (running ?st1)[0 := None]\<rparr>"
    have "pool_step be ins ?st1 ?e"
      using pool_step.finish_err [where be = be and ins = ins and st = ?st1 and w = 0
          and i = i, OF r1(2) r1(1) Inl] .
    then show ?thesis
      by (rule that) simp_all
  next
    case (Inr entry)
    let ?e = "?st1\<lparr>entries := (entries ?st1)[i := entry], running := (running ?st1)[0 := None]\<rparr>"
    have "pool_step be ins ?st1 ?e"
      using pool_step.finish_ok [where be = be and ins = ins and st = ?st1 and w = 0
          and i = i, OF r1(2) r1(1) Inr] .
    then show ?thesis
      by (rule that) simp_all
  qed
  have run2: "running st2 = replicate k None"
    using q2(2) Cons.prems by (cases k) auto
  from Cons.IH [OF run2 Cons.prems(2) q2(1)] obtain st' where
    "(pool_step be ins)\<^sup>*\<^sup>* st2 st'" "queue st' = []" "running st' = replicate k None"
    "nextJob st' = nextJob st2"
    by blast
  with s1 s2 q2(3) show ?case
    by (metis converse_rtranclp_into_rtranclp)
qed

lemma pool_run_exists:
  assumes "0 < k"
  shows "\<exists>st. pool_run be ins k st"
proof -
  let ?i = "pool_init k (length ins)"
  let ?d = "?i\<lparr>queue := queue ?i @ [0..<length ins], nextJob := length ins\<rparr>"
  have a: "(pool_step be ins)\<^sup>*\<^sup>* ?i ?d"
    by (intro dispatch_all) (simp_all add: pool_init_def)
  have "running ?d = replicate k None"
    by (simp add: pool_init_def)
  from drain_queue [OF this assms refl, of be ins] obtain st' where
    "(pool_step be ins)\<^sup>*\<^sup>* ?d st'" "queue st' = []" "running st' = replicate k None"
    "nextJob st' = nextJob ?d"
    by blast
  with a have "(pool_step be ins)\<^sup>*\<^sup>* ?i st' \<and> pool_done ins st'"
    by (auto simp: pool_done_def list_all_iff)
  then show ?thesis
    by (auto simp: pool_run_def)
qed

subsection \<open>Build returns what the serial build returns\<close>

lemma resolveBuildWorkers_total:
  assumes "1 \<le> procs" and "procs < 2 ^ 63"
  shows "\<exists>w. resolveBuildWorkers procs requested fileCount = Some w \<and> 1 \<le> w"
proof (cases "1 < fileCount \<and> requested = WorkersAuto")
  case True
  let ?c = "min (max (procs div 4) 2) fileCount"
  have lo: "2 \<le> ?c" using True by simp
  have "procs div 4 < 2 ^ 61" using assms by simp
  then have hi: "?c < 2 ^ 62" by simp
  from floorPow2_spec [OF lo hi] obtain j where "floorPow2 ?c = Some (2 ^ j)"
    by blast
  moreover have "(1 :: int) \<le> 2 ^ j" by simp
  ultimately show ?thesis
    using True by (simp add: resolveBuildWorkers_def autoBuildWorkers_def)
next
  case False
  then show ?thesis
    by (auto simp: resolveBuildWorkers_def)
qed

lemma serialLoop_Nil: "serialLoop be skip [] [] [] = ([], Inr [])"
  by simp

lemma Build_returns_iff:
  assumes "1 \<le> GOMAXPROCS env" and "GOMAXPROCS env < 2 ^ 63"
  shows "Build_returns env b r \<longleftrightarrow> r = BuildSerial env b"
proof -
  let ?b1 = "prepareInputs b"
  let ?n = "length (inputs ?b1)"
  let ?be = "buildEntry env (opts ?b1)"
  let ?skip = "SkipInvalid (opts ?b1)"
  let ?ser = "finishBuild ?b1 (serialLoop ?be ?skip (inputs ?b1) [] [])"
  have S: "BuildSerial env b = ?ser"
    by (simp add: BuildSerial_def Let_def)
  show ?thesis
  proof (cases "?n = 0")
    case True
    then show ?thesis
      unfolding S by (simp add: Build_returns_def Let_def)
  next
    case False
    from resolveBuildWorkers_total [OF assms, of "Workers (opts ?b1)" "int ?n"]
    obtain w where w: "resolveBuildWorkers (GOMAXPROCS env) (Workers (opts ?b1)) (int ?n) = Some w"
      "1 \<le> w"
      by blast
    show ?thesis
    proof (cases "w \<le> 1")
      case True
      then show ?thesis
        unfolding S using False w by (simp add: Build_returns_def Let_def)
    next
      case w2: False
      let ?k = "nat (if w > int ?n then int ?n else w)"
      have k: "0 < ?k" using w2 False by auto
      have B: "Build_returns env b r \<longleftrightarrow>
          (\<exists>st. pool_run ?be (inputs ?b1) ?k st \<and>
             r = finishBuild ?b1 (collectLoop ?skip (inputs ?b1) 0 (entries st) (errs st) [] []))"
        using False w w2 by (simp add: Build_returns_def Let_def)
      have "(\<exists>st. pool_run ?be (inputs ?b1) ?k st \<and>
             r = finishBuild ?b1 (collectLoop ?skip (inputs ?b1) 0 (entries st) (errs st) [] []))
          \<longleftrightarrow> r = ?ser"
        using pool_run_exists [OF k, of ?be "inputs ?b1"] pool_run_collect [of ?be "inputs ?b1" ?k]
        by metis
      with B S show ?thesis by simp
    qed
  qed
qed

lemma normalizePath_Workers [simp]:
  "normalizePath env (ops\<lparr>Workers := w\<rparr>) p = normalizePath env ops p"
  by (simp add: normalizePath_def)

lemma resolveSuffixType_Workers [simp]:
  "resolveSuffixType env (ops\<lparr>Workers := w\<rparr>) rel = resolveSuffixType env ops rel"
  by (simp add: resolveSuffixType_def)

lemma buildEntry_Workers [simp]:
  "buildEntry env (ops\<lparr>Workers := w\<rparr>) = buildEntry env ops"
  by (rule ext) (simp add: buildEntry_def Let_def split: sum.split prod.split)

lemma prepareInputs_opts [simp]: "opts (prepareInputs b) = opts b"
  by (simp add: prepareInputs_def Let_def)

lemma withWorkers_opts [simp]: "opts (withWorkers w b) = (opts b)\<lparr>Workers := w\<rparr>"
  by (simp add: withWorkers_def)

lemma prepareInputs_withWorkers_inputs [simp]:
  "inputs (prepareInputs (withWorkers w b)) = inputs (prepareInputs b)"
  by (simp add: prepareInputs_def withWorkers_def Let_def)

lemma prepareInputs_withWorkers:
  "prepareInputs (withWorkers w b) = withWorkers w (prepareInputs b)"
  by (simp add: prepareInputs_def withWorkers_def Let_def)

lemma finishBuild_parts:
  "snd (finishBuild b res) =
     (case snd res of Inl err \<Rightarrow> Inl err
      | Inr tex \<Rightarrow> Inr \<lparr>Magic = FileMagic, Textures = tex, Version = SupportedVersion\<rparr>)"
  "issues (fst (finishBuild b res)) = fst res"
  "inputs (fst (finishBuild b res)) = inputs b"
  "opts (fst (finishBuild b res)) = opts b"
  "inputsSorted (fst (finishBuild b res)) = inputsSorted b"
  by (cases res; cases "snd res"; simp add: finishBuild_def)+

lemma BuildSerial_withWorkers:
  "snd (BuildSerial env (withWorkers w b)) = snd (BuildSerial env b)"
  "issues (fst (BuildSerial env (withWorkers w b))) = issues (fst (BuildSerial env b))"
  "inputs (fst (BuildSerial env (withWorkers w b))) = inputs (fst (BuildSerial env b))"
  by (simp_all add: BuildSerial_def Let_def finishBuild_parts)

subsection \<open>Append and sorting\<close>

lemma Append_opts [simp]: "opts (fst (Append env b p)) = opts b"
  by (simp add: Append_def Let_def)

lemma Append_inputs:
  "inputs (fst (Append env b p)) = (if TrimSpace env p = [] then inputs b else inputs b @ [p])"
  by (simp add: Append_def Let_def)

lemma sorted_le_last: "sorted xs \<Longrightarrow> x \<in> set xs \<Longrightarrow> x \<le> last xs"
  for x :: "'a :: linorder"
  by (induction xs) auto

lemma sorted_snoc: "sorted xs \<Longrightarrow> xs = [] \<or> last xs \<le> p \<Longrightarrow> sorted (xs @ [p])"
  for p :: "'a :: linorder"
proof -
  assume s: "sorted xs" and l: "xs = [] \<or> last xs \<le> p"
  have "x \<le> p" if "x \<in> set xs" for x
  proof -
    from that have ne: "xs \<noteq> []" by auto
    from sorted_le_last [OF s that] l ne show ?thesis by auto
  qed
  with s show ?thesis
    by (simp add: sorted_append)
qed

lemma Append_sorted_inv:
  "(inputsSorted b \<longrightarrow> sorted (inputs b)) \<Longrightarrow>
     (inputsSorted (fst (Append env b p)) \<longrightarrow> sorted (inputs (fst (Append env b p))))"
  by (auto simp: Append_def Let_def intro!: sorted_snoc)

lemma appendAll_opts [simp]: "opts (appendAll env b ps) = opts b"
  unfolding appendAll_def by (induction ps arbitrary: b) simp_all

lemma appendAll_inputs:
  "inputs (appendAll env b ps) = inputs b @ filter (\<lambda>p. TrimSpace env p \<noteq> []) ps"
  unfolding appendAll_def by (induction ps arbitrary: b) (simp_all add: Append_inputs)

lemma appendAll_sorted_inv:
  "(inputsSorted b \<longrightarrow> sorted (inputs b)) \<Longrightarrow>
     (inputsSorted (appendAll env b ps) \<longrightarrow> sorted (inputs (appendAll env b ps)))"
  unfolding appendAll_def
proof (induction ps arbitrary: b)
  case Nil
  then show ?case by simp
next
  case (Cons p ps)
  from Append_sorted_inv [OF Cons.prems, of env p] Cons.IH [of "fst (Append env b p)"]
  show ?case by simp
qed

lemma prepareInputs_inputs:
  "(inputsSorted b \<longrightarrow> sorted (inputs b)) \<Longrightarrow> inputs (prepareInputs b) = sort (inputs b)"
  by (auto simp: prepareInputs_def Let_def sortStrings_def sorted_sort_id)

lemma NewBuilder_parts [simp]:
  "inputs (NewBuilder o0) = []" "inputsSorted (NewBuilder o0)" "issues (NewBuilder o0) = []"
  by (simp_all add: NewBuilder_def Let_def)

lemma prepared_appendAll:
  "inputs (prepareInputs (appendAll env (NewBuilder o0) ps))
     = sort (filter (\<lambda>p. TrimSpace env p \<noteq> []) ps)"
proof -
  have "inputsSorted (appendAll env (NewBuilder o0) ps) \<longrightarrow>
      sorted (inputs (appendAll env (NewBuilder o0) ps))"
    by (rule appendAll_sorted_inv) simp
  from prepareInputs_inputs [OF this] show ?thesis
    by (simp add: appendAll_inputs)
qed

lemma sort_mset_filter:
  "mset ps = mset qs \<Longrightarrow> sort (filter P ps) = sort (filter P qs)" for ps :: "'a :: linorder list"
proof -
  assume "mset ps = mset qs"
  then have "mset (filter P ps) = mset (filter P qs)"
    by (metis mset_filter)
  then show ?thesis
    by (metis properties_for_sort sorted_sort mset_sort)
qed

lemma serialLoop_textures:
  "serialLoop be skip ps tex iss = (iss', Inr tex') \<Longrightarrow> tex' = tex @ built_entries be ps"
proof (induction ps arbitrary: tex iss)
  case Nil
  then show ?case by (simp add: built_entries_def)
next
  case (Cons p ps)
  show ?case
  proof (cases "be p")
    case (Inl err)
    with Cons.prems have "skip" and "serialLoop be skip ps tex (iss @ [\<lparr>Path = p, Error = err\<rparr>])
        = (iss', Inr tex')"
      by (auto split: if_splits)
    from Cons.IH [OF this(2)] Inl show ?thesis
      by (simp add: built_entries_def)
  next
    case (Inr e)
    with Cons.prems have "serialLoop be skip ps (tex @ [e]) iss = (iss', Inr tex')"
      by simp
    from Cons.IH [OF this] Inr show ?thesis
      by (simp add: built_entries_def)
  qed
qed

lemma BuildSerial_textures:
  assumes "snd (BuildSerial env b) = Inr f"
  shows "Textures f = built_entries (buildEntry env (opts b)) (inputs (prepareInputs b)) \<and>
         Magic f = FileMagic \<and> Version f = SupportedVersion"
proof -
  let ?b1 = "prepareInputs b"
  obtain iss res where r: "serialLoop (buildEntry env (opts b)) (SkipInvalid (opts b))
      (inputs ?b1) [] [] = (iss, res)"
    by (cases "serialLoop (buildEntry env (opts b)) (SkipInvalid (opts b)) (inputs ?b1) [] []")
  with assms obtain tex where t: "res = Inr tex"
    "f = \<lparr>Magic = FileMagic, Textures = tex, Version = SupportedVersion\<rparr>"
    by (cases res) (auto simp: BuildSerial_def Let_def finishBuild_def)
  from serialLoop_textures [of _ _ _ "[]" "[]" iss tex] r t(1)
  have "tex = built_entries (buildEntry env (opts b)) (inputs ?b1)"
    by simp
  with t(2) show ?thesis by simp
qed

subsection \<open>Stored paths are normalised\<close>










lemma assignFlagHeaders_PAAFile [simp]: "PAAFile (assignFlagHeaders e meta) = PAAFile e"
  by (simp add: assignFlagHeaders_def Let_def split: prod.split)

lemma assignColorHeaders_PAAFile [simp]: "PAAFile (assignColorHeaders env e meta) = PAAFile e"
  by (simp add: assignColorHeaders_def Let_def split: prod.split)



subsection \<open>Build: worker count, order of appends, forced options\<close>

lemma sample_serial:
  "snd (BuildSerial sample_env sample_builder) = sample_result"
  "issues (fst (BuildSerial sample_env sample_builder))
     = [\<lparr>Path = ''z.txt'', Error = ErrUnsupportedInputFormat ''z.txt''\<rparr>]"
  "inputs (fst (BuildSerial sample_env sample_builder))
     = [''B/y_co.paa'', ''a/X_no.paa'', ''z.txt'']"
  by code_simp+

lemma sample_procs: "1 \<le> GOMAXPROCS sample_env" "GOMAXPROCS sample_env < 2 ^ 63"
  by (simp_all add: sample_env_def)

text \<open>
  C4. The host parallelism is a positive Go \<^verbatim>\<open>int\<close>, and \<^verbatim>\<open>buildEntry\<close> is a function
  of the host and the path (the assets do not change during the build). Then for every
  value \<open>w\<close> of \<open>Workers\<close> a call of \<open>Build\<close> returns, and whatever run of the worker
  pool it takes, the file or error, the issues and the inputs it returns are those of the
  build with any other value \<open>w'\<close> (in particular \<open>1\<close>, the serial loop) and those of
  the fully serial build \<open>BuildSerial\<close>.
\<close>

theorem Build_same_for_every_worker_count:
  assumes "1 \<le> GOMAXPROCS env" and "GOMAXPROCS env < 2 ^ 63"
  shows
    "(\<exists>r. Build_returns env (withWorkers w b) r) \<and>
     (Build_returns env (withWorkers w b) r \<and> Build_returns env (withWorkers w' b) r' \<longrightarrow>
        snd r = snd r' \<and> issues (fst r) = issues (fst r') \<and>
        inputs (fst r) = inputs (fst r')) \<and>
     (Build_returns env (withWorkers w b) r \<longrightarrow>
        snd r = snd (BuildSerial env b) \<and>
        issues (fst r) = issues (fst (BuildSerial env b)) \<and>
        inputs (fst r) = inputs (fst (BuildSerial env b)))"
  using Build_returns_iff [OF assms] BuildSerial_withWorkers [of env _ b]
  by simp

theorem Build_same_for_every_worker_count_witness:
  "1 \<le> GOMAXPROCS sample_env \<and> GOMAXPROCS sample_env < 2 ^ 63 \<and>
   Build_returns sample_env (withWorkers 16 sample_builder)
     (BuildSerial sample_env (withWorkers 16 sample_builder)) \<and>
   Build_returns sample_env (withWorkers 1 sample_builder)
     (BuildSerial sample_env (withWorkers 1 sample_builder)) \<and>
   snd (BuildSerial sample_env (withWorkers 16 sample_builder))
     = snd (BuildSerial sample_env (withWorkers 1 sample_builder)) \<and>
   snd (BuildSerial sample_env (withWorkers 16 sample_builder)) = sample_result"
proof -
  let ?r16 = "BuildSerial sample_env (withWorkers 16 sample_builder)"
  let ?r1 = "BuildSerial sample_env (withWorkers 1 sample_builder)"
  have a: "Build_returns sample_env (withWorkers 16 sample_builder) ?r16"
    using Build_returns_iff [OF sample_procs] by simp
  have b: "Build_returns sample_env (withWorkers 1 sample_builder) ?r1"
    using Build_returns_iff [OF sample_procs] by simp
  have c: "snd ?r16 = snd ?r1"
    using a b Build_same_for_every_worker_count
      [OF sample_procs, of 16 sample_builder ?r16 1 ?r1]
    by blast
  have d: "snd ?r16 = sample_result"
    using a sample_serial(1) Build_same_for_every_worker_count
      [OF sample_procs, of 16 sample_builder ?r16 1 ?r1]
    by simp
  from sample_procs a b c d show ?thesis
    by blast
qed

text \<open>
  C5. Two sequences of \<open>Append\<close> calls with the same paths in any order give builds
  with the same file or error, the same issues and the same inputs: the inputs are the
  non-blank paths in ascending (byte-wise lexicographic) order, and the entries of a
  file that is returned are those of the inputs that build, in that order.
\<close>

theorem Build_independent_of_append_order:
  assumes "1 \<le> GOMAXPROCS env" and "GOMAXPROCS env < 2 ^ 63" and "mset ps = mset qs"
    and "Build_returns env (appendAll env (NewBuilder o0) ps) r1"
    and "Build_returns env (appendAll env (NewBuilder o0) qs) r2"
  shows
    "snd r1 = snd r2 \<and> issues (fst r1) = issues (fst r2) \<and>
     inputs (fst r1) = inputs (fst r2) \<and>
     inputs (fst r1) = sort (filter (\<lambda>p. TrimSpace env p \<noteq> []) ps) \<and>
     (\<forall>f. snd r1 = Inr f \<longrightarrow>
        Textures f = built_entries (buildEntry env (opts (NewBuilder o0)))
                       (sort (filter (\<lambda>p. TrimSpace env p \<noteq> []) ps)))"
proof -
  let ?b1 = "appendAll env (NewBuilder o0) ps"
  let ?b2 = "appendAll env (NewBuilder o0) qs"
  let ?s = "sort (filter (\<lambda>p. TrimSpace env p \<noteq> []) ps)"
  have r: "r1 = BuildSerial env ?b1" "r2 = BuildSerial env ?b2"
    using assms(4,5) Build_returns_iff [OF assms(1,2)] by simp_all
  have i1: "inputs (prepareInputs ?b1) = ?s"
    by (rule prepared_appendAll)
  have i2: "inputs (prepareInputs ?b2) = ?s"
    using prepared_appendAll [of env o0 qs] sort_mset_filter [OF assms(3)] by simp
  have a: "snd r1 = snd r2" "issues (fst r1) = issues (fst r2)"
    "inputs (fst r1) = inputs (fst r2)" "inputs (fst r1) = ?s"
    unfolding r by (simp_all add: BuildSerial_def Let_def finishBuild_parts i1 i2)
  have "Textures f = built_entries (buildEntry env (opts (NewBuilder o0))) ?s"
    if "snd r1 = Inr f" for f
    using BuildSerial_textures [of env ?b1 f] that r(1) i1 by simp
  with a show ?thesis
    by blast
qed

theorem Build_independent_of_append_order_witness:
  "1 \<le> GOMAXPROCS sample_env \<and> GOMAXPROCS sample_env < 2 ^ 63 \<and>
   mset sample_paths = mset (rev sample_paths) \<and>
   Build_returns sample_env (appendAll sample_env (NewBuilder sample_opts) sample_paths)
     (BuildSerial sample_env (appendAll sample_env (NewBuilder sample_opts) sample_paths)) \<and>
   Build_returns sample_env (appendAll sample_env (NewBuilder sample_opts) (rev sample_paths))
     (BuildSerial sample_env (appendAll sample_env (NewBuilder sample_opts) (rev sample_paths))) \<and>
   snd (BuildSerial sample_env (appendAll sample_env (NewBuilder sample_opts) sample_paths))
     = snd (BuildSerial sample_env (appendAll sample_env (NewBuilder sample_opts) (rev sample_paths))) \<and>
   inputs (fst (BuildSerial sample_env (appendAll sample_env (NewBuilder sample_opts) sample_paths)))
     = sort (filter (\<lambda>p. TrimSpace sample_env p \<noteq> []) sample_paths) \<and>
   snd (BuildSerial sample_env (appendAll sample_env (NewBuilder sample_opts) sample_paths))
     = sample_result"
proof -
  let ?r1 = "BuildSerial sample_env (appendAll sample_env (NewBuilder sample_opts) sample_paths)"
  let ?r2 = "BuildSerial sample_env (appendAll sample_env (NewBuilder sample_opts) (rev sample_paths))"
  have m: "mset sample_paths = mset (rev sample_paths)"
    by simp
  have a: "Build_returns sample_env (appendAll sample_env (NewBuilder sample_opts) sample_paths) ?r1"
    using Build_returns_iff [OF sample_procs] by simp
  have b: "Build_returns sample_env (appendAll sample_env (NewBuilder sample_opts) (rev sample_paths)) ?r2"
    using Build_returns_iff [OF sample_procs] by simp
  have c: "snd ?r1 = snd ?r2 \<and>
      inputs (fst ?r1) = sort (filter (\<lambda>p. TrimSpace sample_env p \<noteq> []) sample_paths)"
    using Build_independent_of_append_order [OF sample_procs m a b] by blast
  have d: "snd ?r1 = sample_result"
    using sample_serial(1) by (simp add: sample_builder_def)
  from sample_procs m a b c d show ?thesis
    by blast
qed


lemma BuildSerial_opts [simp]: "opts (fst (BuildSerial env b)) = opts b"
  by (simp add: BuildSerial_def Let_def finishBuild_parts)




end
